theory Spec2Isabelle
  imports Main
begin

section \<open>Text primitives of the Python string type\<close>

text \<open>
  A Python \<open>str\<close> is modelled as a \<open>string\<close>; a \<open>char\<close> stands for one code point below
  256, so \<open>length\<close> counts what \<open>len\<close> counts.  \<open>is_space\<close> lists the code points of
  that range for which \<open>str.isspace\<close> holds; \<open>str.split()\<close> and \<open>str.strip()\<close> (both
  called without argument) use exactly that set.
\<close>

definition is_space :: "char \<Rightarrow> bool" where
  "is_space c \<longleftrightarrow> c \<in> set [CHR 0x09, CHR 0x0A, CHR 0x0B, CHR 0x0C, CHR 0x0D,
                          CHR 0x1C, CHR 0x1D, CHR 0x1E, CHR 0x1F, CHR 0x20,
                          CHR 0x85, CHR 0xA0]"

text \<open>\<open>text.strip()\<close>: leading and trailing whitespace removed.\<close>

definition strip :: "string \<Rightarrow> string" where
  "strip s = rev (dropWhile is_space (rev (dropWhile is_space s)))"

text \<open>
  \<open>text.split()\<close>: skip a run of whitespace, take the maximal run of other characters as
  one word, repeat; no empty word is ever produced.
\<close>

function split_ws :: "string \<Rightarrow> string list" where
  "split_ws s =
     (case dropWhile is_space s of
        [] \<Rightarrow> []
      | c # cs \<Rightarrow> takeWhile (\<lambda>x. \<not> is_space x) (c # cs)
                 # split_ws (dropWhile (\<lambda>x. \<not> is_space x) (c # cs)))"
  by pat_completeness auto
termination
proof (relation "measure length")
  show "wf (measure length)" by simp
next
  fix s :: string and c cs
  assume a: "dropWhile is_space s = c # cs"
  have "\<not> is_space c"
    using a hd_dropWhile [of is_space s] by fastforce
  then have "length (dropWhile (\<lambda>x. \<not> is_space x) (c # cs)) \<le> length cs"
    by (simp add: length_dropWhile_le)
  also have "length cs < length (dropWhile is_space s)"
    using a by simp
  also have "\<dots> \<le> length s"
    by (rule length_dropWhile_le)
  finally show "(dropWhile (\<lambda>x. \<not> is_space x) (c # cs), s) \<in> measure length"
    by simp
qed

declare split_ws.simps [simp del]

text \<open>\<open>sep.join(words)\<close>.\<close>

fun join :: "string \<Rightarrow> string list \<Rightarrow> string" where
  "join sep [] = []"
| "join sep [w] = w"
| "join sep (w # v # ws) = w @ sep @ join sep (v # ws)"

text \<open>\<open>text.startswith(prefix)\<close>.\<close>

definition startswith :: "string \<Rightarrow> string \<Rightarrow> bool" where
  "startswith s p \<longleftrightarrow> take (length p) s = p"

section \<open>Text normalizer: \<open>WorldBankAPIScraper._clean_text\<close>\<close>

text \<open>
  \<^verbatim>\<open>
  def _clean_text(self, text):
      text = ' '.join(text.split())
      prefixes_to_remove = ['Abstract*', 'Abstract:', 'Abstract',
          'Project Abstract:', 'Project Abstract',
          'Project Development Objective:', 'Project Development Objective',
          'Description:', 'Description']
      for prefix in prefixes_to_remove:
          if text.startswith(prefix):
              text = text[len(prefix):].strip()
      return text
  \<close>
  \<open>SimpleWorldBankScraper._clean_text\<close> is the same function with the same list.
\<close>

definition collapse_ws :: "string \<Rightarrow> string" where
  "collapse_ws s = join '' '' (split_ws s)"

definition prefixes_to_remove :: "string list" where
  "prefixes_to_remove =
     [''Abstract*'', ''Abstract:'', ''Abstract'',
      ''Project Abstract:'', ''Project Abstract'',
      ''Project Development Objective:'', ''Project Development Objective'',
      ''Description:'', ''Description'']"

text \<open>One iteration of the loop body: the test and the assignment.\<close>

definition remove_prefix :: "string \<Rightarrow> string \<Rightarrow> string" where
  "remove_prefix t p = (if startswith t p then strip (drop (length p) t) else t)"

text \<open>The loop has no \<open>break\<close>: every listed prefix is tested once, in list order,
  against the text as the earlier iterations left it.\<close>

definition remove_prefixes :: "string list \<Rightarrow> string \<Rightarrow> string" where
  "remove_prefixes ps t = foldl remove_prefix t ps"

definition clean_text :: "string \<Rightarrow> string" where
  "clean_text s = remove_prefixes prefixes_to_remove (collapse_ws s)"

text \<open>
  The shape of a normalized text, stated on the characters themselves: \<open>no_adjacent\<close> says
  that no two neighbouring characters are both whitespace; \<open>spaced\<close> adds that the text
  neither starts nor ends with whitespace and that a blank is the only whitespace character
  in it.  \<open>words_ok\<close> describes the word list that \<open>split\<close> returns.
\<close>

definition words_ok :: "string list \<Rightarrow> bool" where
  "words_ok ws \<longleftrightarrow> (\<forall>w\<in>set ws. w \<noteq> [] \<and> (\<forall>c\<in>set w. \<not> is_space c))"

fun no_adjacent :: "string \<Rightarrow> bool" where
  "no_adjacent (a # b # cs) \<longleftrightarrow> \<not> (is_space a \<and> is_space b) \<and> no_adjacent (b # cs)"
| "no_adjacent _ \<longleftrightarrow> True"

definition spaced :: "string \<Rightarrow> bool" where
  "spaced t \<longleftrightarrow> (t \<noteq> [] \<longrightarrow> \<not> is_space (hd t) \<and> \<not> is_space (last t)) \<and> no_adjacent t
     \<and> (\<forall>c\<in>set t. is_space c \<longrightarrow> c = CHR '' '')"

text \<open>
  The normalizer as the specification words it: after the collapse, the longest listed
  prefix that the text starts with is removed, once, and the rest is trimmed.  The
  candidates that match one text are prefixes of each other, so the longest is unique.
\<close>

definition longest_matching :: "string \<Rightarrow> string option" where
  "longest_matching t =
     (case filter (startswith t) prefixes_to_remove of
        [] \<Rightarrow> None
      | m # ms \<Rightarrow> Some (fold (\<lambda>p b. if length b < length p then p else b) ms m))"

definition normalize_spec :: "string \<Rightarrow> string" where
  "normalize_spec s =
     (let t = collapse_ws s in
      case longest_matching t of None \<Rightarrow> t | Some p \<Rightarrow> strip (drop (length p) t))"

text \<open>The prefixes listed after \<open>p\<close>: those the loop still tests once \<open>p\<close> has been removed.\<close>

definition later_prefixes :: "string \<Rightarrow> string list" where
  "later_prefixes p = tl (dropWhile (\<lambda>q. q \<noteq> p) prefixes_to_remove)"

section \<open>Identifier resolver: \<open>WorldBankAPIScraper.extract_project_id\<close>\<close>

text \<open>
  \<^verbatim>\<open>
  def extract_project_id(self, url):
      match = re.search(r'/project-detail/(P\d+)', url)
      if match:
          return match.group(1)
      return None
  \<close>
  \<open>re.search\<close> tries the pattern at every position from the left and returns the first
  match.  At one position the pattern needs the literal text \<open>/project-detail/P\<close> and then
  at least one digit; \<open>\d+\<close> is greedy and nothing follows it in the pattern, so the group
  is \<open>P\<close> with the maximal run of digits.  Among the code points below 256 the digits
  matched by \<open>\d\<close> are \<open>0\<close> to \<open>9\<close>.  \<open>match_here\<close> is the match attempt at the start of its
  argument.
\<close>

definition is_digit :: "char \<Rightarrow> bool" where
  "is_digit c \<longleftrightarrow> c \<in> set ''0123456789''"

definition detail_prefix :: string where
  "detail_prefix = ''/project-detail/P''"

definition match_here :: "string \<Rightarrow> string option" where
  "match_here s =
     (if startswith s detail_prefix
      then (case takeWhile is_digit (drop (length detail_prefix) s) of
              [] \<Rightarrow> None
            | d # ds \<Rightarrow> Some (CHR ''P'' # d # ds))
      else None)"

fun extract_project_id :: "string \<Rightarrow> string option" where
  "extract_project_id [] = None"
| "extract_project_id (c # cs) =
     (case match_here (c # cs) of
        Some k \<Rightarrow> Some k
      | None \<Rightarrow> extract_project_id cs)"

section \<open>API extractor: \<open>get_project_data\<close> and \<open>extract_abstract\<close>\<close>

text \<open>
  The remote API is a parameter of the model: \<open>api project_id\<close> is what the request for
  \<open>project_id\<close> produces.  \<open>RequestFailed\<close> stands for every exception raised inside the
  \<open>try\<close> block of \<open>get_project_data\<close> (transport error, error status, malformed JSON);
  \<open>Envelope None\<close> is a JSON document without the key \<open>projects\<close>, and \<open>Envelope (Some ps)\<close>
  one whose \<open>projects\<close> entry is the dictionary \<open>ps\<close>.  A dictionary is an association
  list read with \<open>map_of\<close>; field values are JSON strings or \<open>null\<close>.
  \<^verbatim>\<open>
  def get_project_data(self, project_id):
      try:
          ...
          data = response.json()
          if 'projects' in data and project_id in data['projects']:
              return data['projects'][project_id]
          else:
              return None
      except Exception as e:
          return None
  \<close>
\<close>

datatype jvalue = JNull | JStr string

type_synonym project = "(string \<times> jvalue) list"

datatype api_response = RequestFailed | Envelope "(string \<times> project) list option"

definition get_project_data :: "(string \<Rightarrow> api_response) \<Rightarrow> string \<Rightarrow> project option" where
  "get_project_data api project_id =
     (case api project_id of
        RequestFailed \<Rightarrow> None
      | Envelope None \<Rightarrow> None
      | Envelope (Some projects) \<Rightarrow> map_of projects project_id)"

text \<open>
  \<^verbatim>\<open>
  abstract = ""
  abstract_fields = ['project_abstract', 'abstract', 'description', 'summary',
                     'project_description', 'project_summary']
  for field in abstract_fields:
      if field in project_data and project_data[field]:
          abstract = str(project_data[field]).strip()
          if len(abstract) > 50:
              break
  \<close>
  \<open>scan_fields\<close> is this loop; its last argument is the variable \<open>abstract\<close>, which every
  present, non-empty field overwrites, whether or not the loop stops there.
\<close>

definition abstract_fields :: "string list" where
  "abstract_fields =
     [''project_abstract'', ''abstract'', ''description'', ''summary'',
      ''project_description'', ''project_summary'']"

fun scan_fields :: "project \<Rightarrow> string list \<Rightarrow> string \<Rightarrow> string" where
  "scan_fields pd [] abstract = abstract"
| "scan_fields pd (field # fields) abstract =
     (case map_of pd field of
        Some (JStr v) \<Rightarrow>
          if v \<noteq> [] then
            (if 50 < length (strip v) then strip v else scan_fields pd fields (strip v))
          else scan_fields pd fields abstract
      | _ \<Rightarrow> scan_fields pd fields abstract)"

text \<open>
  \<^verbatim>\<open>
  def extract_abstract(self, url):
      try:
          project_id = self.extract_project_id(url)
          if not project_id:
              return ""
          project_data = self.get_project_data(project_id)
          if not project_data:
              return ""
          ... (the loop above) ...
          if abstract:
              abstract = self._clean_text(abstract)
              return abstract
          else:
              return ""
      except Exception as e:
          return ""
  \<close>
  A project identifier that the resolver returns is never empty, so \<open>not project_id\<close>
  holds for \<open>None\<close> only.
\<close>

definition extract_abstract :: "(string \<Rightarrow> api_response) \<Rightarrow> string \<Rightarrow> string" where
  "extract_abstract api url =
     (case extract_project_id url of
        None \<Rightarrow> []
      | Some project_id \<Rightarrow>
          (case get_project_data api project_id of
             None \<Rightarrow> []
           | Some project_data \<Rightarrow>
               if project_data = [] then []
               else (let abstract = scan_fields project_data abstract_fields []
                     in if abstract \<noteq> [] then clean_text abstract else [])))"

text \<open>A field qualifies when it holds a string whose trimmed length exceeds 50.\<close>

definition qualifies :: "project \<Rightarrow> string \<Rightarrow> bool" where
  "qualifies pd field \<longleftrightarrow> (\<exists>v. map_of pd field = Some (JStr v) \<and> 50 < length (strip v))"

text \<open>Two concrete responses, used to evaluate the extractor.\<close>

definition api_short :: "string \<Rightarrow> api_response" where
  "api_short project_id =
     Envelope (Some [(''P100001'', [(''abstract'', JStr ''Too short'')])])"

definition api_both :: "string \<Rightarrow> api_response" where
  "api_both project_id =
     Envelope (Some [(''P100001'',
        [(''description'', JStr (replicate 200 CHR ''d'')),
         (''project_abstract'', JStr (replicate 60 CHR ''a''))])])"

section \<open>Batch orchestrator: \<open>WorldBankAPIScraper.process_csv\<close>\<close>

text \<open>
  The table is the input file as \<open>read_csv\<close> loads it (writing the output file belongs to
  the record store).  A table has its column names and its rows; a row gives the cell of
  every column (its value at a name that is not a column is not part of the table).  A
  cell is missing (\<open>NaN\<close>: an empty field), a text (\<open>Str\<close>), or a field that \<open>read_csv\<close>
  recognises as a number or a truth value (\<open>Num\<close>, with the text of the field).
  \<open>df[output_column] = ""\<close> is \<open>set_column\<close>: an existing column is overwritten in place, a
  new one is appended.
\<close>

datatype cell = NaN | Str string | Num string

record dataframe =
  columns :: "string list"
  rows :: "(string \<Rightarrow> cell) list"

datatype exn = ValueError string | AttributeError | OtherError string

definition set_column :: "dataframe \<Rightarrow> string \<Rightarrow> cell \<Rightarrow> dataframe" where
  "set_column df c v =
     \<lparr>columns = (if c \<in> set (columns df) then columns df else columns df @ [c]),
      rows = map (\<lambda>r. r(c := v)) (rows df)\<rparr>"

text \<open>
  \<open>read_csv\<close> gives a column one dtype.  A column that holds a text is an \<open>object\<close> column
  and delivers every field that is not missing as a \<open>str\<close>, its numeric-looking fields
  too; a column without any text is numeric and delivers its numbers as numpy scalars,
  which have no method \<open>strip\<close>.  \<open>locator_value\<close> is what \<open>row[url_column]\<close> is in Python.
\<close>

definition object_column :: "(string \<Rightarrow> cell) list \<Rightarrow> string \<Rightarrow> bool" where
  "object_column rs c = list_ex (\<lambda>r. case r c of Str s \<Rightarrow> True | _ \<Rightarrow> False) rs"

datatype locator = Missing | Text string | Number

definition locator_value :: "bool \<Rightarrow> cell \<Rightarrow> locator" where
  "locator_value object url =
     (case url of
        NaN \<Rightarrow> Missing
      | Str s \<Rightarrow> Text s
      | Num s \<Rightarrow> if object then Text s else Number)"

text \<open>
  The call \<open>self.extract_abstract(url)\<close> made for the row at position \<open>i\<close> either raises
  (\<open>Inl\<close>) or returns the abstract (\<open>Inr\<close>); the position is an argument because the remote
  source may answer differently from one request to the next.  \<open>api_extractor\<close> is the
  extractor of \<open>WorldBankAPIScraper\<close>, which catches its own exceptions.
\<close>

type_synonym extractor = "nat \<Rightarrow> string \<Rightarrow> exn + string"

definition api_extractor :: "(nat \<Rightarrow> string \<Rightarrow> api_response) \<Rightarrow> extractor" where
  "api_extractor apis i url = Inr (extract_abstract (apis i) url)"

text \<open>
  \<^verbatim>\<open>
  for index, row in df.iterrows():
      url = row[url_column]
      if pd.isna(url) or not url.strip():
          continue
      try:
          abstract = self.extract_abstract(url)
          df.at[index, output_column] = abstract
      except Exception as e:
          df.at[index, output_column] = ""
  \<close>
  \<open>process_row\<close> is one iteration: the test \<open>url.strip()\<close> stands before the \<open>try\<close>, so on a
  number it raises \<open>AttributeError\<close> out of the loop.  \<open>row_calls\<close> is the extractor call
  that the iteration makes, and \<open>process_rows\<close> the loop, which returns the calls made and
  either the exception that ended it or the rows as they are at its end.
\<close>

definition blank_locator :: "cell \<Rightarrow> bool" where
  "blank_locator url = (case url of NaN \<Rightarrow> True | Str u \<Rightarrow> strip u = [] | Num s \<Rightarrow> False)"

definition process_row ::
  "extractor \<Rightarrow> string \<Rightarrow> string \<Rightarrow> bool \<Rightarrow> nat \<Rightarrow> (string \<Rightarrow> cell)
     \<Rightarrow> exn + (string \<Rightarrow> cell)" where
  "process_row ex url_column output_column object i r =
     (case locator_value object (r url_column) of
        Missing \<Rightarrow> Inr r
      | Number \<Rightarrow> Inl AttributeError
      | Text url \<Rightarrow>
          if strip url = [] then Inr r
          else (case ex i url of
                  Inr abstract \<Rightarrow> Inr (r(output_column := Str abstract))
                | Inl e \<Rightarrow> Inr (r(output_column := Str []))))"

definition row_calls :: "string \<Rightarrow> bool \<Rightarrow> nat \<Rightarrow> (string \<Rightarrow> cell) \<Rightarrow> (nat \<times> string) list" where
  "row_calls url_column object i r =
     (case locator_value object (r url_column) of
        Text url \<Rightarrow> if strip url = [] then [] else [(i, url)]
      | _ \<Rightarrow> [])"

fun process_rows ::
  "extractor \<Rightarrow> string \<Rightarrow> string \<Rightarrow> bool \<Rightarrow> nat \<Rightarrow> (string \<Rightarrow> cell) list
     \<Rightarrow> (nat \<times> string) list \<times> (exn + (string \<Rightarrow> cell) list)" where
  "process_rows ex url_column output_column object i [] = ([], Inr [])"
| "process_rows ex url_column output_column object i (r # rs) =
     (case process_row ex url_column output_column object i r of
        Inl e \<Rightarrow> ([], Inl e)
      | Inr r' \<Rightarrow>
          (let (calls, rest) = process_rows ex url_column output_column object (Suc i) rs
           in (row_calls url_column object i r @ calls,
               case rest of Inl e \<Rightarrow> Inl e | Inr out \<Rightarrow> Inr (r' # out))))"

text \<open>
  \<^verbatim>\<open>
  def process_csv(self, input_file, url_column='Project URL', output_column='Abstract'):
      try:
          df = pd.read_csv(input_file)
          if url_column not in df.columns:
              available_columns = ', '.join(df.columns.tolist())
              raise ValueError(f"Column '{url_column}' not found in CSV. "
                               f"Available columns: {available_columns}")
          df[output_column] = ""
          total_urls = len(df)
          ... (the loop above) ...
          df.to_csv(output_file, index=False)
          successful_extractions = (df[output_column] != "").sum()
          logger.info(f"Summary: {successful_extractions}/{total_urls} ...")
          return output_file
      except Exception as e:
          raise
  \<close>
  The result is the list of extractor calls made, and either the exception that leaves
  the function or the saved table with the two numbers of the summary.  The dtype of the
  locator column is read off the table as it is when the loop starts, after the result
  column has been set.
\<close>

definition column_error :: "string \<Rightarrow> string list \<Rightarrow> exn" where
  "column_error url_column cols =
     ValueError (''Column '' @ [CHR 0x27] @ url_column @ [CHR 0x27]
                 @ '' not found in CSV. Available columns: '' @ join '', '' cols)"

definition process_csv ::
  "extractor \<Rightarrow> dataframe \<Rightarrow> string \<Rightarrow> string
     \<Rightarrow> (nat \<times> string) list \<times> (exn + dataframe \<times> nat \<times> nat)" where
  "process_csv ex df url_column output_column =
     (if url_column \<notin> set (columns df)
      then ([], Inl (column_error url_column (columns df)))
      else
        (let df1 = set_column df output_column (Str []);
             total_urls = length (rows df1);
             object = object_column (rows df1) url_column
         in case process_rows ex url_column output_column object 0 (rows df1) of
              (calls, Inl e) \<Rightarrow> (calls, Inl e)
            | (calls, Inr out) \<Rightarrow>
                (let df2 = df1\<lparr>rows := out\<rparr>;
                     successful_extractions =
                       length (filter (\<lambda>r. r output_column \<noteq> Str []) (rows df2))
                 in (calls, Inr (df2, successful_extractions, total_urls)))))"

text \<open>
  \<open>result_rows\<close> names the rows at the end of a loop that no exception ended.  Record \<open>k\<close>
  fails when its locator is text and the extractor call made for it raises or returns the
  empty abstract.  The locator column is read as numbers when it is not the result
  column, holds no text and holds a number.
\<close>

definition result_rows :: "extractor \<Rightarrow> dataframe \<Rightarrow> string \<Rightarrow> string \<Rightarrow> (string \<Rightarrow> cell) list" where
  "result_rows ex df uc oc =
     (case snd (process_rows ex uc oc (object_column (rows (set_column df oc (Str []))) uc) 0
                  (rows (set_column df oc (Str [])))) of
        Inr out \<Rightarrow> out
      | Inl e \<Rightarrow> [])"

definition fails_at :: "extractor \<Rightarrow> dataframe \<Rightarrow> string \<Rightarrow> nat \<Rightarrow> bool" where
  "fails_at ex df url_column k =
     (case (rows df ! k) url_column of
        NaN \<Rightarrow> False
      | Str url \<Rightarrow> (case ex k url of Inl e \<Rightarrow> True | Inr abstract \<Rightarrow> abstract = [])
      | Num s \<Rightarrow> False)"

definition numeric_locator :: "dataframe \<Rightarrow> string \<Rightarrow> string \<Rightarrow> bool" where
  "numeric_locator df url_column output_column \<longleftrightarrow>
     url_column \<noteq> output_column \<and> \<not> object_column (rows df) url_column
     \<and> list_ex (\<lambda>r. case r url_column of Num s \<Rightarrow> True | _ \<Rightarrow> False) (rows df)"

text \<open>
  A table of three records, the same table with an empty result column, a table whose
  locator column holds numbers, and a remote source whose second request fails.
\<close>

definition demo_row :: "cell \<Rightarrow> cell \<Rightarrow> string \<Rightarrow> cell" where
  "demo_row url old c =
     (if c = ''Project URL'' then url else if c = ''Abstract'' then old else NaN)"

definition demo_table :: dataframe where
  "demo_table =
     \<lparr>columns = [''Project URL'', ''Abstract''],
      rows = [demo_row (Str ''https://projects.worldbank.org/project-detail/P100001'') (Str ''old 1''),
              demo_row (Str ''https://projects.worldbank.org/project-detail/P100002'') (Str ''old 2''),
              demo_row NaN (Str ''old 3'')]\<rparr>"

definition demo_table_blank :: dataframe where
  "demo_table_blank =
     \<lparr>columns = [''Project URL'', ''Abstract''],
      rows = [demo_row (Str ''https://projects.worldbank.org/project-detail/P100001'') NaN,
              demo_row (Str ''https://projects.worldbank.org/project-detail/P100002'') NaN,
              demo_row NaN NaN]\<rparr>"

definition demo_table_numeric :: dataframe where
  "demo_table_numeric =
     \<lparr>columns = [''Project URL''],
      rows = [demo_row (Num ''100001'') NaN, demo_row (Num ''100002'') NaN]\<rparr>"

definition demo_apis :: "nat \<Rightarrow> string \<Rightarrow> api_response" where
  "demo_apis i project_id =
     (if i = 1 then RequestFailed
      else Envelope (Some [(project_id, [(''project_abstract'', JStr (replicate 65 CHR ''x''))])]))"

section \<open>Document extractors: \<open>SimpleWorldBankScraper\<close> and \<open>WorldBankScraper\<close>\<close>

text \<open>
  The static extractor tries five strategies in order; a strategy raises or returns a
  text.  The page is modelled by what the request and the strategies produce: \<open>Inl\<close> when
  the request or the parse raises, otherwise the outcomes of the five strategies in
  priority order.
  \<^verbatim>\<open>
  abstract_text = ""
  for i, strategy in enumerate(strategies, 1):
      try:
          result = strategy()
          if result and len(result.strip()) > 50:
              abstract_text = result
              break
      except Exception as e:
          continue
  if abstract_text:
      abstract_text = self._clean_text(abstract_text)
      return abstract_text
  else:
      return ""
  \<close>
\<close>

definition substantial :: "string \<Rightarrow> bool" where
  "substantial result \<longleftrightarrow> result \<noteq> [] \<and> 50 < length (strip result)"

fun first_substantial :: "(exn + string) list \<Rightarrow> string" where
  "first_substantial [] = []"
| "first_substantial (Inl e # strategies) = first_substantial strategies"
| "first_substantial (Inr result # strategies) =
     (if substantial result then result else first_substantial strategies)"

definition simple_extract_abstract :: "exn + (exn + string) list \<Rightarrow> string" where
  "simple_extract_abstract page =
     (case page of
        Inl e \<Rightarrow> []
      | Inr strategies \<Rightarrow>
          (let abstract_text = first_substantial strategies
           in if abstract_text \<noteq> [] then clean_text abstract_text else []))"

definition fruitless :: "exn + string \<Rightarrow> bool" where
  "fruitless outcome = (case outcome of Inl e \<Rightarrow> True | Inr result \<Rightarrow> \<not> substantial result)"

text \<open>
  The browser extractor.  A page is modelled by what the driver answers: whether the page
  loads, what \<open>find_elements\<close> gives for a selector (\<open>Inl\<close> when the query, or the handling
  of the \<open>Show More\<close> control that follows a non-empty answer, raises; otherwise the
  \<open>textContent\<close> of each element as read after the expansion, \<open>Inl\<close> for an element whose
  read raises), and what the eleven \<open>soup.find\<close> probes of the fallback give.
  \<^verbatim>\<open>
  for selector in abstract_selectors:
      try:
          elements = self.driver.find_elements(By.XPATH, selector)
          if elements:
              ... (Show More) ...
              for element in elements:
                  text = element.get_attribute('textContent').strip()
                  if text and len(text) > 50:
                      abstract_text += text + " "
              if abstract_text.strip():
                  break
      except Exception as e:
          continue
  \<close>
  \<open>accumulate\<close> is the inner loop; it returns the text gathered and whether a read raised.
\<close>

definition abstract_selectors :: "string list" where
  "abstract_selectors =
     [''//h2[contains(text(), 'Abstract')]/following-sibling::*'',
      ''//h3[contains(text(), 'Abstract')]/following-sibling::*'',
      ''//div[contains(@class, 'abstract')]'',
      ''//section[contains(@class, 'abstract')]'',
      ''//h2[contains(text(), 'Project Development Objective')]/following-sibling::*'',
      ''//h3[contains(text(), 'Project Development Objective')]/following-sibling::*'',
      ''//div[contains(text(), 'Project Development Objective')]/../following-sibling::*'',
      ''//h2[contains(text(), 'Description')]/following-sibling::*'',
      ''//h3[contains(text(), 'Description')]/following-sibling::*'',
      ''//div[contains(@class, 'project-details')]//div[contains(text(), 'Abstract')]/../following-sibling::div'',
      ''//div[contains(@class, 'project-summary')]'',
      ''//div[contains(@class, 'project-description')]'',
      ''//*[contains(text(), 'Abstract')]/following-sibling::*'',
      ''//*[contains(text(), 'Abstract')]/../following-sibling::*'',
      ''//div[contains(@class, 'summary')]'',
      ''//div[contains(@class, 'overview')]'',
      ''//div[@class='summary-section']'',
      ''//div[@class='project-abstract']'',
      ''//div[@id='abstract']'',
      ''//div[@id='summary']'']"

record browser_page =
  loaded :: bool
  find_elements :: "string \<Rightarrow> exn + (exn + string) list"
  page_patterns :: "exn + string option list"

fun accumulate :: "(exn + string) list \<Rightarrow> string \<Rightarrow> string \<times> bool" where
  "accumulate [] abstract_text = (abstract_text, False)"
| "accumulate (Inl e # elements) abstract_text = (abstract_text, True)"
| "accumulate (Inr content # elements) abstract_text =
     (let text = strip content
      in accumulate elements
           (if text \<noteq> [] \<and> 50 < length text then abstract_text @ text @ '' ''
            else abstract_text))"

fun scan_selectors ::
  "(string \<Rightarrow> exn + (exn + string) list) \<Rightarrow> string list \<Rightarrow> string \<Rightarrow> string" where
  "scan_selectors query [] abstract_text = abstract_text"
| "scan_selectors query (selector # selectors) abstract_text =
     (case query selector of
        Inl e \<Rightarrow> scan_selectors query selectors abstract_text
      | Inr elements \<Rightarrow>
          if elements = [] then scan_selectors query selectors abstract_text
          else (case accumulate elements abstract_text of
                  (text, True) \<Rightarrow> scan_selectors query selectors text
                | (text, False) \<Rightarrow>
                    if strip text \<noteq> [] then text
                    else scan_selectors query selectors text))"

text \<open>
  \<^verbatim>\<open>
  if not abstract_text.strip():
      ...
      for pattern in patterns:
          if pattern:
              abstract_text = pattern.get_text().strip()
              if abstract_text:
                  break
  if abstract_text:
      abstract_text = ' '.join(abstract_text.split())
      prefixes_to_remove = ['Abstract*', 'Abstract:', 'Abstract',
                            'Project Abstract:', 'Project Abstract']
      for prefix in prefixes_to_remove:
          if abstract_text.startswith(prefix):
              abstract_text = abstract_text[len(prefix):].strip()
      return abstract_text
  else:
      return ""
  \<close>
  Every exception inside \<open>extract_abstract\<close> that the selector loop does not catch ends
  the call with the empty string.
\<close>

fun first_pattern :: "string option list \<Rightarrow> string \<Rightarrow> string" where
  "first_pattern [] abstract_text = abstract_text"
| "first_pattern (None # patterns) abstract_text = first_pattern patterns abstract_text"
| "first_pattern (Some text # patterns) abstract_text =
     (if strip text \<noteq> [] then strip text else first_pattern patterns (strip text))"

definition wb_prefixes :: "string list" where
  "wb_prefixes =
     [''Abstract*'', ''Abstract:'', ''Abstract'', ''Project Abstract:'', ''Project Abstract'']"

definition wb_clean :: "string \<Rightarrow> string" where
  "wb_clean abstract_text = remove_prefixes wb_prefixes (collapse_ws abstract_text)"

definition wb_extract_abstract :: "browser_page \<Rightarrow> string" where
  "wb_extract_abstract page =
     (if \<not> loaded page then []
      else
        (let abstract_text = scan_selectors (find_elements page) abstract_selectors []
         in case (if strip abstract_text = []
                  then (case page_patterns page of
                          Inl e \<Rightarrow> Inl e
                        | Inr patterns \<Rightarrow> Inr (first_pattern patterns abstract_text))
                  else Inr abstract_text) of
              Inl e \<Rightarrow> []
            | Inr abstract_text \<Rightarrow>
                if abstract_text \<noteq> [] then wb_clean abstract_text else []))"

text \<open>
  A selector yields nothing when its query raises or none of its elements has more than 50
  characters of trimmed text.  \<open>joined_texts\<close> is what the inner loop gathers from elements
  that are all read: each substantial text, trimmed and followed by a blank.
\<close>

definition yields_nothing :: "exn + (exn + string) list \<Rightarrow> bool" where
  "yields_nothing found =
     (case found of
        Inl e \<Rightarrow> True
      | Inr elements \<Rightarrow>
          list_all (\<lambda>el. case el of Inl e \<Rightarrow> True | Inr content \<Rightarrow> \<not> 50 < length (strip content))
            elements)"

definition joined_texts :: "string list \<Rightarrow> string" where
  "joined_texts contents =
     concat (map (\<lambda>c. strip c @ '' '') (filter (\<lambda>c. 50 < length (strip c)) contents))"

text \<open>
  A page on which the third selector matches two elements with 51 characters each; a page
  on which the read of the second element of the first selector raises and the third
  selector matches one element; and four strategy outcomes of which the third is the first
  substantial one.
\<close>

definition demo_page :: browser_page where
  "demo_page =
     \<lparr>loaded = True,
      find_elements = (\<lambda>selector.
         if selector = ''//div[contains(@class, 'abstract')]''
         then Inr [Inr (replicate 51 CHR ''a''), Inr (replicate 51 CHR ''b'')]
         else Inr []),
      page_patterns = Inr []\<rparr>"

definition demo_page_raising :: browser_page where
  "demo_page_raising =
     \<lparr>loaded = True,
      find_elements = (\<lambda>selector.
         if selector = ''//h2[contains(text(), 'Abstract')]/following-sibling::*''
         then Inr [Inr (replicate 51 CHR ''a''), Inl (OtherError ''stale element'')]
         else if selector = ''//div[contains(@class, 'abstract')]''
         then Inr [Inr (replicate 51 CHR ''b'')]
         else Inr []),
      page_patterns = Inr []\<rparr>"

definition demo_strategies :: "(exn + string) list" where
  "demo_strategies =
     [Inr ''Abstract'', Inl (OtherError ''strategy failed''),
      Inr (replicate 60 CHR ''a''), Inr (replicate 200 CHR ''b'')]"

section \<open>Properties of the text normalizer\<close>

lemma is_space_blank [simp]: "is_space CHR '' ''"
  by (simp add: is_space_def)

lemma split_ws_Nil [simp]: "split_ws [] = []"
  by (simp add: split_ws.simps)

lemma split_ws_Cons:
  assumes "dropWhile is_space s = c # cs"
  shows "split_ws s = takeWhile (\<lambda>x. \<not> is_space x) (c # cs)
           # split_ws (dropWhile (\<lambda>x. \<not> is_space x) (c # cs))"
  by (subst split_ws.simps) (simp only: assms list.case)

lemma split_ws_none:
  assumes "dropWhile is_space s = []"
  shows "split_ws s = []"
  by (subst split_ws.simps) (simp only: assms list.case)

lemma dropWhile_Cons_not:
  assumes "dropWhile P s = c # cs"
  shows "\<not> P c"
proof -
  have "dropWhile P s \<noteq> []"
    unfolding assms by simp
  then have "\<not> P (hd (dropWhile P s))"
    by (rule hd_dropWhile)
  then show ?thesis
    unfolding assms by simp
qed

lemma takeWhile_no_space:
  "x \<in> set (takeWhile (\<lambda>x. \<not> is_space x) s) \<Longrightarrow> \<not> is_space x"
  by (rule set_takeWhileD [THEN conjunct2])

lemma words_ok_Cons:
  "words_ok (w # ws) \<longleftrightarrow> w \<noteq> [] \<and> (\<forall>c\<in>set w. \<not> is_space c) \<and> words_ok ws"
  by (simp add: words_ok_def)

lemma split_ws_words_ok: "words_ok (split_ws s)"
proof (induction s rule: split_ws.induct)
  case (1 s)
  show ?case
  proof (cases "dropWhile is_space s")
    case Nil
    then have "split_ws s = []"
      by (rule split_ws_none)
    then show ?thesis by (simp add: words_ok_def)
  next
    case (Cons c cs)
    let ?w = "takeWhile (\<lambda>x. \<not> is_space x) (c # cs)"
    let ?r = "dropWhile (\<lambda>x. \<not> is_space x) (c # cs)"
    have nc: "\<not> is_space c"
      using Cons by (rule dropWhile_Cons_not)
    have a: "\<forall>x\<in>set ?w. \<not> is_space x"
      using takeWhile_no_space by blast
    have b: "?w \<noteq> []"
      using nc by simp
    have c: "words_ok (split_ws ?r)"
      by (rule 1 [OF Cons])
    have d: "split_ws s = ?w # split_ws ?r"
      using Cons by (rule split_ws_Cons)
    have "words_ok (?w # split_ws ?r)"
      unfolding words_ok_Cons by (intro conjI b a c)
    then show ?thesis
      by (simp only: d)
  qed
qed

lemma no_adjacent_Cons:
  "no_adjacent (a # t) \<longleftrightarrow> (t \<noteq> [] \<longrightarrow> \<not> (is_space a \<and> is_space (hd t))) \<and> no_adjacent t"
  by (cases t) auto

lemma no_adjacent_append:
  "no_adjacent (a @ b) \<longleftrightarrow>
     no_adjacent a \<and> no_adjacent b \<and> (a \<noteq> [] \<and> b \<noteq> [] \<longrightarrow> \<not> (is_space (last a) \<and> is_space (hd b)))"
  by (induction a) (auto simp: no_adjacent_Cons hd_append)

lemma no_adjacent_no_space: "\<forall>c\<in>set w. \<not> is_space c \<Longrightarrow> no_adjacent w"
  by (induction w) (auto simp: no_adjacent_Cons)

lemma join_Cons: "ws \<noteq> [] \<Longrightarrow> join sep (w # ws) = w @ sep @ join sep ws"
  by (cases ws) auto

lemma join_nonempty: "words_ok ws \<Longrightarrow> ws \<noteq> [] \<Longrightarrow> join sep ws \<noteq> []"
  by (cases "(sep, ws)" rule: join.cases) (auto simp: words_ok_def)

lemma join_hd: "words_ok ws \<Longrightarrow> ws \<noteq> [] \<Longrightarrow> hd (join sep ws) = hd (hd ws)"
  by (cases "(sep, ws)" rule: join.cases) (auto simp: words_ok_def)

lemma spaced_join: "words_ok ws \<Longrightarrow> spaced (join '' '' ws)"
proof (induction "'' ''" ws rule: join.induct)
  case 1
  then show ?case by (simp add: spaced_def)
next
  case (2 w)
  then show ?case by (auto simp: spaced_def words_ok_def no_adjacent_no_space)
next
  case (3 w v ws)
  let ?T = "join '' '' (v # ws)"
  have ok: "words_ok (v # ws)" using 3 by (simp add: words_ok_def)
  then have T: "spaced ?T" and ne: "?T \<noteq> []"
    using 3 join_nonempty [of "v # ws"] by auto
  have w: "w \<noteq> []" "\<forall>c\<in>set w. \<not> is_space c"
    using "3.prems" by (auto simp: words_ok_def)
  have "no_adjacent (w @ CHR '' '' # ?T)"
    using T ne w by (auto simp: no_adjacent_append no_adjacent_Cons spaced_def no_adjacent_no_space)
  then show ?case
    using T ne w by (auto simp: spaced_def)
qed

lemma spaced_collapse_ws: "spaced (collapse_ws s)"
  by (simp add: collapse_ws_def spaced_join split_ws_words_ok)

lemma strip_prefix_of_dropWhile: "\<exists>b. dropWhile is_space s = strip s @ b"
proof -
  let ?u = "dropWhile is_space s"
  have "rev (takeWhile is_space (rev ?u) @ dropWhile is_space (rev ?u)) = ?u"
    by (simp only: takeWhile_dropWhile_id rev_rev_ident)
  then have "strip s @ rev (takeWhile is_space (rev ?u)) = ?u"
    by (simp only: rev_append strip_def)
  then have "?u = strip s @ rev (takeWhile is_space (rev ?u))"
    by (rule sym)
  then show ?thesis by (rule exI)
qed

lemma strip_decomp:
  obtains a b where "s = a @ strip s @ b"
proof -
  obtain b where b: "dropWhile is_space s = strip s @ b"
    using strip_prefix_of_dropWhile by blast
  have "s = takeWhile is_space s @ strip s @ b"
    by (simp only: b [symmetric] takeWhile_dropWhile_id)
  then show ?thesis by (rule that)
qed

lemma strip_ends:
  assumes "strip s \<noteq> []"
  shows "\<not> is_space (hd (strip s))" and "\<not> is_space (last (strip s))"
proof -
  obtain b where b: "dropWhile is_space s = strip s @ b"
    using strip_prefix_of_dropWhile by blast
  have "hd (dropWhile is_space s) = hd (strip s)"
    unfolding b using assms by simp
  moreover have "dropWhile is_space s \<noteq> []"
    unfolding b using assms by simp
  ultimately show "\<not> is_space (hd (strip s))"
    using hd_dropWhile [of is_space s] by simp
  let ?v = "dropWhile is_space (rev (dropWhile is_space s))"
  have v: "?v \<noteq> []" using assms by (simp only: strip_def rev_is_Nil_conv not_False_eq_True)
  have "last (strip s) = hd ?v" using v by (simp only: strip_def last_rev)
  then show "\<not> is_space (last (strip s))"
    using v hd_dropWhile [of is_space "rev (dropWhile is_space s)"] by simp
qed

lemma spaced_strip_drop:
  assumes "spaced t"
  shows "spaced (strip (drop n t))"
proof -
  define m where "m = strip (drop n t)"
  obtain a b where ab: "drop n t = a @ m @ b"
    unfolding m_def by (rule strip_decomp)
  have "no_adjacent (take n t @ drop n t)"
    using assms by (simp add: spaced_def)
  then have "no_adjacent (drop n t)"
    unfolding no_adjacent_append by blast
  then have "no_adjacent (a @ m @ b)"
    by (simp only: ab)
  then have 1: "no_adjacent m"
    unfolding no_adjacent_append by blast
  have "set m \<subseteq> set (drop n t)"
    unfolding ab by auto
  then have 2: "set m \<subseteq> set t"
    using set_drop_subset [of n t] by blast
  have 3: "m \<noteq> [] \<longrightarrow> \<not> is_space (hd m) \<and> \<not> is_space (last m)"
    unfolding m_def using strip_ends [of "drop n t"] by blast
  have "spaced m"
    using assms 1 2 3 unfolding spaced_def by blast
  then show ?thesis by (simp only: m_def)
qed

lemma spaced_remove_prefix: "spaced t \<Longrightarrow> spaced (remove_prefix t p)"
  by (simp add: remove_prefix_def spaced_strip_drop)

lemma spaced_remove_prefixes: "spaced t \<Longrightarrow> spaced (remove_prefixes ps t)"
  unfolding remove_prefixes_def
  by (induction ps arbitrary: t) (simp_all add: spaced_remove_prefix)

lemma spaced_clean_text: "spaced (clean_text s)"
  by (simp add: clean_text_def spaced_remove_prefixes spaced_collapse_ws)


lemma join_split_ws:
  assumes "no_adjacent t" and "\<forall>c\<in>set t. is_space c \<longrightarrow> c = CHR '' ''"
    and "t \<noteq> [] \<longrightarrow> \<not> is_space (last t)"
  shows "join '' '' (split_ws t) = dropWhile is_space t"
  using assms
proof (induction t rule: split_ws.induct)
  case (1 s)
  note na = "1.prems"(1) and bl = "1.prems"(2) and la = "1.prems"(3)
  show ?case
  proof (cases "dropWhile is_space s")
    case Nil
    have "split_ws s = []" using Nil by (rule split_ws_none)
    then show ?thesis by (simp only: Nil join.simps)
  next
    case (Cons c cs)
    define w where "w = takeWhile (\<lambda>x. \<not> is_space x) (c # cs)"
    define r where "r = dropWhile (\<lambda>x. \<not> is_space x) (c # cs)"
    define a where "a = takeWhile is_space s"
    have wr: "w @ r = c # cs"
      unfolding w_def r_def by (rule takeWhile_dropWhile_id)
    have "a @ dropWhile is_space s = s"
      unfolding a_def by (rule takeWhile_dropWhile_id)
    then have "a @ w @ r = s"
      by (simp only: Cons wr)
    then have s_eq: "(a @ w) @ r = s"
      by (simp only: append_assoc)
    have d: "split_ws s = w # split_ws r"
      unfolding w_def r_def using Cons by (rule split_ws_Cons)
    have "no_adjacent ((a @ w) @ r)"
      using na by (simp only: s_eq)
    then have r1: "no_adjacent r"
      unfolding no_adjacent_append by blast
    have "set r \<subseteq> set ((a @ w) @ r)"
      by auto
    then have sub: "set r \<subseteq> set s"
      by (simp only: s_eq)
    have r2: "\<forall>c\<in>set r. is_space c \<longrightarrow> c = CHR '' ''"
      using bl sub by blast
    have r3: "r \<noteq> [] \<longrightarrow> \<not> is_space (last r)"
    proof
      assume ne: "r \<noteq> []"
      from ne have "last ((a @ w) @ r) = last r"
        by simp
      then have l: "last s = last r"
        unfolding s_eq .
      from ne have "(a @ w) @ r \<noteq> []"
        by simp
      then have "s \<noteq> []"
        unfolding s_eq .
      then show "\<not> is_space (last r)"
        using la l by simp
    qed
    have ih: "join '' '' (split_ws r) = dropWhile is_space r"
      unfolding r_def
      by (rule "1.IH" [OF Cons r1 [unfolded r_def] r2 [unfolded r_def] r3 [unfolded r_def]])
    show ?thesis
    proof (cases r)
      case Nil
      have "w = c # cs" using wr unfolding Nil by simp
      moreover have "split_ws s = [w]" unfolding d Nil by simp
      ultimately show ?thesis by (simp only: Cons join.simps)
    next
      case (Cons x r')
      have "dropWhile (\<lambda>x. \<not> is_space x) (c # cs) = x # r'"
        using Cons unfolding r_def .
      then have "\<not> \<not> is_space x"
        by (rule dropWhile_Cons_not)
      then have sx: "is_space x" by simp
      have "x \<in> set s" using sub unfolding Cons by simp
      then have x: "x = CHR '' ''" using bl sx by blast
      have ne: "r' \<noteq> []"
      proof
        assume "r' = []"
        then have "last r = x" and "r \<noteq> []" unfolding Cons by simp_all
        then show False using r3 sx by simp
      qed
      then obtain y ys where r': "r' = y # ys"
        by (cases r') auto
      have "\<not> is_space y"
        using r1 sx unfolding Cons r' by simp
      then have "dropWhile is_space r = r'"
        using sx unfolding Cons r' by simp
      then have j: "join '' '' (split_ws r) = r'"
        using ih by (simp only:)
      then have "split_ws r \<noteq> []"
        using ne by auto
      then have "join '' '' (w # split_ws r) = w @ '' '' @ join '' '' (split_ws r)"
        by (rule join_Cons)
      also have "\<dots> = w @ '' '' @ r'"
        by (simp only: j)
      also have "\<dots> = w @ r"
        unfolding Cons x by simp
      finally have "join '' '' (split_ws s) = c # cs"
        unfolding d wr .
      then show ?thesis
        by (simp only: \<open>dropWhile is_space s = c # cs\<close>)
    qed
  qed
qed

lemma dropWhile_hd_not: "t \<noteq> [] \<longrightarrow> \<not> P (hd t) \<Longrightarrow> dropWhile P t = t"
  by (cases t) auto

lemma collapse_ws_spaced: "spaced t \<Longrightarrow> collapse_ws t = t"
  unfolding collapse_ws_def spaced_def
  by (simp add: join_split_ws dropWhile_hd_not)

lemma collapse_ws_idem: "collapse_ws (collapse_ws s) = collapse_ws s"
  by (rule collapse_ws_spaced) (rule spaced_collapse_ws)

lemma remove_prefixes_Nil [simp]: "remove_prefixes [] t = t"
  by (simp add: remove_prefixes_def)

lemma remove_prefixes_Cons [simp]:
  "remove_prefixes (p # ps) t = remove_prefixes ps (remove_prefix t p)"
  by (simp add: remove_prefixes_def)

lemma remove_prefixes_no_match:
  "\<forall>p\<in>set ps. \<not> startswith t p \<Longrightarrow> remove_prefixes ps t = t"
  by (induction ps) (simp_all add: remove_prefix_def)

lemma length_strip_le: "length (strip s) \<le> length s"
proof -
  have "length (strip s) \<le> length (dropWhile is_space s)"
    unfolding strip_def length_rev
    using length_dropWhile_le [of is_space "rev (dropWhile is_space s)"] by simp
  also have "\<dots> \<le> length s"
    by (rule length_dropWhile_le)
  finally show ?thesis .
qed

lemma length_remove_prefix_le: "length (remove_prefix t p) \<le> length t"
proof -
  have "length (strip (drop (length p) t)) \<le> length (drop (length p) t)"
    by (rule length_strip_le)
  also have "\<dots> \<le> length t"
    by simp
  finally show ?thesis
    by (simp add: remove_prefix_def)
qed

lemma length_remove_prefix_less:
  assumes "startswith t p" and "p \<noteq> []"
  shows "length (remove_prefix t p) < length t"
proof -
  have "length (take (length p) t) = length p"
    using assms(1) by (simp only: startswith_def)
  then have "length p \<le> length t" by simp
  moreover have "0 < length p" using assms(2) by simp
  moreover have "length (drop (length p) t) = length t - length p" by simp
  ultimately have "length (drop (length p) t) < length t" by arith
  moreover have "length (strip (drop (length p) t)) \<le> length (drop (length p) t)"
    by (rule length_strip_le)
  ultimately have "length (strip (drop (length p) t)) < length t"
    by (rule le_less_trans [rotated])
  then show ?thesis
    using assms(1) by (simp add: remove_prefix_def)
qed

lemma length_remove_prefixes_le: "length (remove_prefixes ps t) \<le> length t"
proof (induction ps arbitrary: t)
  case Nil
  show ?case by simp
next
  case (Cons p ps)
  have "length (remove_prefixes ps (remove_prefix t p)) \<le> length (remove_prefix t p)"
    by (rule Cons.IH)
  also have "\<dots> \<le> length t" by (rule length_remove_prefix_le)
  finally show ?case by simp
qed

lemma length_remove_prefixes_less:
  assumes "\<forall>p\<in>set ps. p \<noteq> []" and "\<exists>p\<in>set ps. startswith t p"
  shows "length (remove_prefixes ps t) < length t"
  using assms
proof (induction ps arbitrary: t)
  case Nil
  then show ?case by simp
next
  case (Cons p ps)
  show ?case
  proof (cases "startswith t p")
    case True
    have "length (remove_prefixes ps (remove_prefix t p)) \<le> length (remove_prefix t p)"
      by (rule length_remove_prefixes_le)
    also have "\<dots> < length t"
      using True Cons.prems(1) by (simp add: length_remove_prefix_less)
    finally show ?thesis by simp
  next
    case False
    then have "remove_prefix t p = t" by (simp add: remove_prefix_def)
    moreover have "length (remove_prefixes ps t) < length t"
      using Cons.IH [of t] Cons.prems False by auto
    ultimately show ?thesis by simp
  qed
qed

lemma prefixes_nonempty: "\<forall>p\<in>set prefixes_to_remove. p \<noteq> []"
  by (simp add: prefixes_to_remove_def)

text \<open>
  Claim C2 (idempotence of the normalizer).  As stated, for every string, the claim fails:
  the text \<open>Abstract Abstract\<close> is cleaned to \<open>Abstract\<close>, which is itself a listed
  prefix and is cleaned to the empty string.
\<close>

theorem clean_text_not_idempotent:
  "clean_text (clean_text ''Abstract Abstract'') \<noteq> clean_text ''Abstract Abstract''"
  by code_simp

text \<open>
  Claim C2, amended: cleaning a cleaned text changes nothing exactly when the cleaned text
  starts with none of the listed prefixes.
\<close>

theorem clean_text_idempotent_iff:
  "clean_text (clean_text x) = clean_text x
     \<longleftrightarrow> (\<forall>p\<in>set prefixes_to_remove. \<not> startswith (clean_text x) p)"
proof -
  define y where "y = clean_text x"
  have "spaced y" unfolding y_def by (rule spaced_clean_text)
  then have "collapse_ws y = y" by (rule collapse_ws_spaced)
  then have cy: "clean_text y = remove_prefixes prefixes_to_remove y"
    by (simp add: clean_text_def)
  have "clean_text y = y \<longleftrightarrow> (\<forall>p\<in>set prefixes_to_remove. \<not> startswith y p)"
  proof
    assume eq: "clean_text y = y"
    show "\<forall>p\<in>set prefixes_to_remove. \<not> startswith y p"
    proof (rule ccontr)
      assume "\<not> (\<forall>p\<in>set prefixes_to_remove. \<not> startswith y p)"
      then have "\<exists>p\<in>set prefixes_to_remove. startswith y p" by blast
      then have "length (remove_prefixes prefixes_to_remove y) < length y"
        using prefixes_nonempty by (rule length_remove_prefixes_less [rotated])
      then show False using eq cy by simp
    qed
  next
    assume "\<forall>p\<in>set prefixes_to_remove. \<not> startswith y p"
    then show "clean_text y = y"
      unfolding cy by (rule remove_prefixes_no_match)
  qed
  then show ?thesis unfolding y_def .
qed

theorem clean_text_idempotent_iff_witness:
  "filter (startswith (clean_text ''Project Abstract:  Foo'')) prefixes_to_remove = []
   \<and> clean_text (clean_text ''Project Abstract:  Foo'') = clean_text ''Project Abstract:  Foo''"
proof -
  have h: "filter (startswith (clean_text ''Project Abstract:  Foo'')) prefixes_to_remove = []"
    by code_simp
  then have "\<forall>p\<in>set prefixes_to_remove. \<not> startswith (clean_text ''Project Abstract:  Foo'') p"
    by (simp only: filter_empty_conv)
  then show ?thesis
    using h clean_text_idempotent_iff [of "''Project Abstract:  Foo''"] by blast
qed

text \<open>
  Claim C10 (shape of every normalized text).  For every input, the result of
  \<open>_clean_text\<close> neither starts nor ends with a whitespace character, has no two
  neighbouring whitespace characters, and contains no whitespace character other than the
  blank; in particular it contains no newline and no tab.
\<close>

theorem clean_text_well_spaced:
  "(clean_text s \<noteq> [] \<longrightarrow>
      \<not> is_space (hd (clean_text s)) \<and> \<not> is_space (last (clean_text s)))
   \<and> no_adjacent (clean_text s)
   \<and> (\<forall>c\<in>set (clean_text s). is_space c \<longrightarrow> c = CHR '' '')
   \<and> CHR 0x0A \<notin> set (clean_text s) \<and> CHR 0x09 \<notin> set (clean_text s)"
proof -
  have sp: "spaced (clean_text s)"
    by (rule spaced_clean_text)
  have "is_space (CHR 0x0A)" and "is_space (CHR 0x09)"
    by (simp_all add: is_space_def)
  moreover have "CHR 0x0A \<noteq> CHR '' ''" and "CHR 0x09 \<noteq> CHR '' ''"
    by simp_all
  ultimately have "CHR 0x0A \<notin> set (clean_text s)" and "CHR 0x09 \<notin> set (clean_text s)"
    using sp unfolding spaced_def by blast+
  then show ?thesis
    using sp unfolding spaced_def by blast
qed

theorem clean_text_well_spaced_witness:
  "clean_text ('' Abstract:  a'' @ [CHR 0x0A, CHR 0x09] @ ''b  '') = ''a b''
   \<and> \<not> is_space (hd (clean_text ('' Abstract:  a'' @ [CHR 0x0A, CHR 0x09] @ ''b  '')))
   \<and> \<not> is_space (last (clean_text ('' Abstract:  a'' @ [CHR 0x0A, CHR 0x09] @ ''b  '')))
   \<and> no_adjacent (clean_text ('' Abstract:  a'' @ [CHR 0x0A, CHR 0x09] @ ''b  ''))"
proof -
  have v: "clean_text ('' Abstract:  a'' @ [CHR 0x0A, CHR 0x09] @ ''b  '') = ''a b''"
    by code_simp
  then have "clean_text ('' Abstract:  a'' @ [CHR 0x0A, CHR 0x09] @ ''b  '') \<noteq> []"
    by simp
  then show ?thesis
    using v clean_text_well_spaced [of "'' Abstract:  a'' @ [CHR 0x0A, CHR 0x09] @ ''b  ''"]
    by blast
qed

lemma startswith_append: "startswith (p @ r) q \<longleftrightarrow> take (length q) (p @ r) = q"
  by (simp add: startswith_def)

lemma startswith_decomp: "startswith t p \<Longrightarrow> \<exists>r. t = p @ r"
  unfolding startswith_def by (metis append_take_drop_id)

lemma find_longest:
  "find (startswith t) prefixes_to_remove = longest_matching t"
proof -
  consider
    (a) r where "t = ''Abstract*'' @ r"
  | (b) r where "t = ''Abstract:'' @ r"
  | (c) r where "t = ''Abstract'' @ r" "\<not> startswith t ''Abstract*''" "\<not> startswith t ''Abstract:''"
  | (d) r where "t = ''Project Abstract:'' @ r"
  | (e) r where "t = ''Project Abstract'' @ r" "\<not> startswith t ''Project Abstract:''"
  | (f) r where "t = ''Project Development Objective:'' @ r"
  | (g) r where "t = ''Project Development Objective'' @ r" "\<not> startswith t ''Project Development Objective:''"
  | (h) r where "t = ''Description:'' @ r"
  | (i) r where "t = ''Description'' @ r" "\<not> startswith t ''Description:''"
  | (j) "\<forall>p\<in>set prefixes_to_remove. \<not> startswith t p"
    using startswith_decomp [of t] unfolding prefixes_to_remove_def
    by (metis list.set_intros(1) list.set_intros(2) set_ConsD empty_iff list.set(1))
  then show ?thesis
  proof cases
    case a then show ?thesis
      by (simp add: longest_matching_def prefixes_to_remove_def startswith_def)
  next
    case b then show ?thesis
      by (simp add: longest_matching_def prefixes_to_remove_def startswith_def)
  next
    case c then show ?thesis
      by (simp add: longest_matching_def prefixes_to_remove_def startswith_def)
  next
    case d then show ?thesis
      by (simp add: longest_matching_def prefixes_to_remove_def startswith_def)
  next
    case e then show ?thesis
      by (simp add: longest_matching_def prefixes_to_remove_def startswith_def)
  next
    case f then show ?thesis
      by (simp add: longest_matching_def prefixes_to_remove_def startswith_def)
  next
    case g then show ?thesis
      by (simp add: longest_matching_def prefixes_to_remove_def startswith_def)
  next
    case h then show ?thesis
      by (simp add: longest_matching_def prefixes_to_remove_def startswith_def)
  next
    case i then show ?thesis
      by (simp add: longest_matching_def prefixes_to_remove_def startswith_def)
  next
    case j
    then have "filter (startswith t) prefixes_to_remove = []"
      by (simp only: filter_empty_conv) 
    moreover have "find (startswith t) prefixes_to_remove = None"
      using j by (auto simp: find_None_iff)
    ultimately show ?thesis
      by (simp add: longest_matching_def)
  qed
qed

lemma find_SomeD: "find P xs = Some x \<Longrightarrow> P x"
  by (induction xs) (auto split: if_splits)

lemma remove_prefixes_find:
  "remove_prefixes ps t =
     (case find (startswith t) ps of
        None \<Rightarrow> t
      | Some p \<Rightarrow> remove_prefixes (tl (dropWhile (\<lambda>q. q \<noteq> p) ps)) (strip (drop (length p) t)))"
  by (induction ps) (auto simp: remove_prefix_def split: option.splits dest: find_SomeD)

text \<open>
  Claim C3, amended: the first prefix removed is the longest listed prefix that the
  collapsed text starts with; after it the loop goes on and tests every prefix listed
  later against the trimmed remainder, so further prefixes can be removed by the same call.
  \<open>Project Abstract: Foo\<close> is cleaned to \<open>Foo\<close>.
\<close>

theorem clean_text_removes_longest_first:
  "clean_text s =
     (case longest_matching (collapse_ws s) of
        None \<Rightarrow> collapse_ws s
      | Some p \<Rightarrow> remove_prefixes (later_prefixes p) (strip (drop (length p) (collapse_ws s))))
   \<and> clean_text ''Project Abstract: Foo'' = ''Foo''"
proof -
  have "clean_text ''Project Abstract: Foo'' = ''Foo''"
    by code_simp
  moreover have "clean_text s =
     (case longest_matching (collapse_ws s) of
        None \<Rightarrow> collapse_ws s
      | Some p \<Rightarrow> remove_prefixes (later_prefixes p) (strip (drop (length p) (collapse_ws s))))"
    unfolding clean_text_def later_prefixes_def find_longest [symmetric]
    by (rule remove_prefixes_find)
  ultimately show ?thesis by (rule conjI [rotated])
qed

text \<open>
  Claim C3 (at most one prefix is removed).  As stated the claim fails: from
  \<open>Abstract: Description: foo\<close> the loop removes \<open>Abstract:\<close> and then \<open>Description:\<close>,
  where the removal of one longest prefix leaves \<open>Description: foo\<close>.
\<close>

theorem clean_text_removes_two_prefixes:
  "clean_text ''Abstract: Description: foo'' = ''foo''
   \<and> normalize_spec ''Abstract: Description: foo'' = ''Description: foo''
   \<and> clean_text ''Abstract: Description: foo'' \<noteq> normalize_spec ''Abstract: Description: foo''"
  by code_simp

theorem clean_text_removes_longest_first_witness:
  "longest_matching (collapse_ws ''Abstract:  Description: foo'') = Some ''Abstract:''
   \<and> later_prefixes ''Abstract:'' = [''Abstract'', ''Project Abstract:'', ''Project Abstract'',
        ''Project Development Objective:'', ''Project Development Objective'',
        ''Description:'', ''Description'']
   \<and> clean_text ''Abstract:  Description: foo'' = ''foo''"
proof -
  have 1: "longest_matching (collapse_ws ''Abstract:  Description: foo'') = Some ''Abstract:''"
    by code_simp
  have 2: "later_prefixes ''Abstract:'' = [''Abstract'', ''Project Abstract:'', ''Project Abstract'',
        ''Project Development Objective:'', ''Project Development Objective'',
        ''Description:'', ''Description'']"
    by code_simp
  have 3: "remove_prefixes (later_prefixes ''Abstract:'')
             (strip (drop (length ''Abstract:'') (collapse_ws ''Abstract:  Description: foo''))) = ''foo''"
    by code_simp
  have "clean_text ''Abstract:  Description: foo'' = ''foo''"
    using clean_text_removes_longest_first [of "''Abstract:  Description: foo''"]
    by (simp only: 1 3 option.case)
  then show ?thesis using 1 2 by blast
qed

section \<open>Properties of the identifier resolver\<close>

lemma startswith_iff: "startswith s p \<longleftrightarrow> (\<exists>r. s = p @ r)"
  unfolding startswith_def
proof
  assume "take (length p) s = p"
  then have "s = p @ drop (length p) s"
    by (metis append_take_drop_id)
  then show "\<exists>r. s = p @ r" ..
next
  assume "\<exists>r. s = p @ r"
  then show "take (length p) s = p" by auto
qed

lemma takeWhile_all:
  assumes "list_all P xs" and "r = [] \<or> \<not> P (hd r)"
  shows "takeWhile P (xs @ r) = xs"
proof -
  have "takeWhile P r = []"
    using assms(2) by (cases r) auto
  then show ?thesis
    using assms(1) by (simp add: takeWhile_append2 list_all_iff)
qed

lemma match_here_Some:
  "match_here s = Some k \<longleftrightarrow>
     (\<exists>ds r. s = detail_prefix @ ds @ r \<and> ds \<noteq> [] \<and> list_all is_digit ds
        \<and> (r = [] \<or> \<not> is_digit (hd r)) \<and> k = CHR ''P'' # ds)"
proof
  assume m: "match_here s = Some k"
  then have "startswith s detail_prefix"
    by (auto simp: match_here_def split: if_splits)
  then obtain rest where s: "s = detail_prefix @ rest"
    unfolding startswith_iff by blast
  define ds where "ds = takeWhile is_digit rest"
  define r where "r = dropWhile is_digit rest"
  have rest: "rest = ds @ r"
    unfolding ds_def r_def by simp
  have k: "ds \<noteq> []" "k = CHR ''P'' # ds"
    using m unfolding s match_here_def startswith_iff ds_def
    by (auto split: list.splits)
  have "list_all is_digit ds"
    unfolding ds_def list_all_iff by (auto dest: set_takeWhileD)
  moreover have "r = [] \<or> \<not> is_digit (hd r)"
    unfolding r_def using hd_dropWhile [of is_digit rest] by blast
  ultimately show "\<exists>ds r. s = detail_prefix @ ds @ r \<and> ds \<noteq> [] \<and> list_all is_digit ds
        \<and> (r = [] \<or> \<not> is_digit (hd r)) \<and> k = CHR ''P'' # ds"
    using s rest k by blast
next
  assume "\<exists>ds r. s = detail_prefix @ ds @ r \<and> ds \<noteq> [] \<and> list_all is_digit ds
        \<and> (r = [] \<or> \<not> is_digit (hd r)) \<and> k = CHR ''P'' # ds"
  then obtain ds r where s: "s = detail_prefix @ ds @ r" and ne: "ds \<noteq> []"
    and dig: "list_all is_digit ds" and r: "r = [] \<or> \<not> is_digit (hd r)"
    and k: "k = CHR ''P'' # ds"
    by blast
  have "takeWhile is_digit (ds @ r) = ds"
    using dig r by (rule takeWhile_all)
  moreover have "startswith s detail_prefix"
    unfolding startswith_iff using s by blast
  ultimately show "match_here s = Some k"
    using ne unfolding match_here_def s k by (auto split: list.splits)
qed

lemma match_here_None:
  "match_here s = None \<longleftrightarrow> \<not> (\<exists>d r. s = detail_prefix @ d # r \<and> is_digit d)"
proof -
  have "match_here s \<noteq> None \<longleftrightarrow> (\<exists>d r. s = detail_prefix @ d # r \<and> is_digit d)"
  proof
    assume "match_here s \<noteq> None"
    then obtain k where "match_here s = Some k" by auto
    then obtain ds r where s: "s = detail_prefix @ ds @ r" and ne: "ds \<noteq> []"
      and dig: "list_all is_digit ds"
      unfolding match_here_Some by blast
    obtain d ds' where ds: "ds = d # ds'" using ne by (cases ds) auto
    have "is_digit d" using dig unfolding ds by simp
    moreover have "s = detail_prefix @ d # (ds' @ r)" unfolding s ds by simp
    ultimately show "\<exists>d r. s = detail_prefix @ d # r \<and> is_digit d" by blast
  next
    assume "\<exists>d r. s = detail_prefix @ d # r \<and> is_digit d"
    then obtain d r where s: "s = detail_prefix @ d # r" and d: "is_digit d" by blast
    have "startswith s detail_prefix"
      unfolding startswith_iff using s by blast
    moreover have "takeWhile is_digit (drop (length detail_prefix) s) \<noteq> []"
      unfolding s using d by simp
    ultimately show "match_here s \<noteq> None"
      unfolding match_here_def by (auto split: list.splits)
  qed
  then show ?thesis by blast
qed

lemma extract_project_id_None:
  "extract_project_id s = None \<longleftrightarrow> (\<forall>a r. s = a @ r \<longrightarrow> match_here r = None)"
proof (induction s)
  case Nil
  have "match_here [] = None"
    by (simp add: match_here_def startswith_def detail_prefix_def)
  then show ?case by simp
next
  case (Cons c cs)
  have "(\<forall>a r. c # cs = a @ r \<longrightarrow> match_here r = None)
        \<longleftrightarrow> match_here (c # cs) = None \<and> (\<forall>a r. cs = a @ r \<longrightarrow> match_here r = None)"
    by (auto simp: Cons_eq_append_conv)
  then show ?case
    using Cons.IH by (auto split: option.splits)
qed

lemma extract_project_id_Some:
  "extract_project_id s = Some k \<Longrightarrow>
     \<exists>a r. s = a @ r \<and> match_here r = Some k
        \<and> (\<forall>a' r'. s = a' @ r' \<and> length a' < length a \<longrightarrow> match_here r' = None)"
proof (induction s)
  case Nil
  then show ?case by simp
next
  case (Cons c cs)
  show ?case
  proof (cases "match_here (c # cs)")
    case (Some k')
    then have "match_here (c # cs) = Some k" using Cons.prems by simp
    then have "c # cs = [] @ (c # cs) \<and> match_here (c # cs) = Some k
        \<and> (\<forall>a' r'. c # cs = a' @ r' \<and> length a' < length ([]::string) \<longrightarrow> match_here r' = None)"
      by simp
    then show ?thesis by blast
  next
    case None
    then have "extract_project_id cs = Some k" using Cons.prems by simp
    then obtain a r where cs: "cs = a @ r" and m: "match_here r = Some k"
      and least: "\<forall>a' r'. cs = a' @ r' \<and> length a' < length a \<longrightarrow> match_here r' = None"
      using Cons.IH by blast
    have "\<forall>a' r'. c # cs = a' @ r' \<and> length a' < length (c # a) \<longrightarrow> match_here r' = None"
    proof (intro allI impI)
      fix a' r'
      assume h: "c # cs = a' @ r' \<and> length a' < length (c # a)"
      show "match_here r' = None"
      proof (cases a')
        case Nil
        then show ?thesis using h None by simp
      next
        case (Cons x a'')
        then have "cs = a'' @ r'" and "length a'' < length a" using h by simp_all
        then show ?thesis using least by blast
      qed
    qed
    moreover have "c # cs = (c # a) @ r" using cs by simp
    ultimately show ?thesis using m by blast
  qed
qed


lemma extract_project_id_None_iff:
  "extract_project_id url = None \<longleftrightarrow>
     \<not> (\<exists>a d r. url = a @ detail_prefix @ d # r \<and> is_digit d)"
proof -
  have h: "(\<exists>a r. url = a @ r \<and> match_here r \<noteq> None)
        \<longleftrightarrow> (\<exists>a d r. url = a @ detail_prefix @ d # r \<and> is_digit d)"
  proof
    assume "\<exists>a r. url = a @ r \<and> match_here r \<noteq> None"
    then obtain a r where u: "url = a @ r" and "match_here r \<noteq> None"
      by blast
    then obtain d r' where "r = detail_prefix @ d # r'" and "is_digit d"
      unfolding match_here_None by blast
    then show "\<exists>a d r. url = a @ detail_prefix @ d # r \<and> is_digit d"
      using u by blast
  next
    assume "\<exists>a d r. url = a @ detail_prefix @ d # r \<and> is_digit d"
    then obtain a d r where u: "url = a @ (detail_prefix @ d # r)" and d: "is_digit d"
      by blast
    have "match_here (detail_prefix @ d # r) \<noteq> None"
      unfolding match_here_None using d by blast
    then show "\<exists>a r. url = a @ r \<and> match_here r \<noteq> None"
      using u by blast
  qed
  have "extract_project_id url = None \<longleftrightarrow> \<not> (\<exists>a r. url = a @ r \<and> match_here r \<noteq> None)"
    unfolding extract_project_id_None by simp
  then show ?thesis
    by (simp only: h)
qed

lemma extract_project_id_Some_decomp:
  assumes "extract_project_id url = Some k"
  shows "\<exists>a ds r. url = a @ detail_prefix @ ds @ r \<and> k = CHR ''P'' # ds
            \<and> ds \<noteq> [] \<and> list_all is_digit ds \<and> (r = [] \<or> \<not> is_digit (hd r))
            \<and> \<not> (\<exists>a' d r'. length a' < length a \<and> url = a' @ detail_prefix @ d # r'
                    \<and> is_digit d)"
proof -
  from extract_project_id_Some [OF assms]
  obtain a r0 where url: "url = a @ r0" and m: "match_here r0 = Some k"
    and least: "\<forall>a' r'. url = a' @ r' \<and> length a' < length a \<longrightarrow> match_here r' = None"
    by (elim exE conjE) (rule that, assumption+)
  from m [unfolded match_here_Some]
  obtain ds r where r0: "r0 = detail_prefix @ ds @ r" and ne: "ds \<noteq> []"
    and dig: "list_all is_digit ds" and r: "r = [] \<or> \<not> is_digit (hd r)"
    and k: "k = CHR ''P'' # ds"
    by (elim exE conjE) (rule that, assumption+)
  have n: "\<not> (\<exists>a' d r'. length a' < length a \<and> url = a' @ detail_prefix @ d # r' \<and> is_digit d)"
  proof
    assume "\<exists>a' d r'. length a' < length a \<and> url = a' @ detail_prefix @ d # r' \<and> is_digit d"
    then obtain a' d r' where l: "length a' < length a"
      and u: "url = a' @ (detail_prefix @ d # r')" and d: "is_digit d"
      by (elim exE conjE) (rule that, assumption+)
    have "url = a' @ (detail_prefix @ d # r') \<and> length a' < length a
            \<longrightarrow> match_here (detail_prefix @ d # r') = None"
      using least by (elim allE)
    then have "match_here (detail_prefix @ d # r') = None"
      using l u by (simp only:)
    then show False
      unfolding match_here_None using d by blast
  qed
  have e: "url = a @ detail_prefix @ ds @ r"
    by (simp only: url r0)
  show ?thesis
    by (intro exI conjI) (rule e k ne dig r n)+
qed

text \<open>
  Claim C6 (identifier resolution).  As stated the claim fails: a key that is embedded in a
  path segment but does not directly follow \<open>/project-detail/\<close>, or whose letter is not
  \<open>P\<close>, is not resolved.
\<close>

theorem extract_project_id_needs_detail_segment:
  "extract_project_id ''https://projects.worldbank.org/en/projects-operations/P168606'' = None
   \<and> extract_project_id ''https://projects.worldbank.org/en/project-detail/Q168606'' = None"
  by code_simp

text \<open>
  Claim C6, amended: the result is \<open>None\<close> exactly when the locator nowhere contains
  \<open>/project-detail/P\<close> followed by a digit; otherwise it is the letter \<open>P\<close> with the maximal
  run of digits that follows the leftmost such occurrence.  The function is total, so
  no input raises.
\<close>

theorem extract_project_id_leftmost:
  "(extract_project_id url = None \<longleftrightarrow>
      \<not> (\<exists>a d r. url = a @ detail_prefix @ d # r \<and> is_digit d))
   \<and> (extract_project_id url = Some k \<longrightarrow>
        (\<exists>a ds r. url = a @ detail_prefix @ ds @ r \<and> k = CHR ''P'' # ds
            \<and> ds \<noteq> [] \<and> list_all is_digit ds \<and> (r = [] \<or> \<not> is_digit (hd r))
            \<and> \<not> (\<exists>a' d r'. length a' < length a \<and> url = a' @ detail_prefix @ d # r'
                    \<and> is_digit d)))"
proof (intro conjI impI)
  show "extract_project_id url = None \<longleftrightarrow>
      \<not> (\<exists>a d r. url = a @ detail_prefix @ d # r \<and> is_digit d)"
    by (rule extract_project_id_None_iff)
next
  assume "extract_project_id url = Some k"
  then show "\<exists>a ds r. url = a @ detail_prefix @ ds @ r \<and> k = CHR ''P'' # ds
            \<and> ds \<noteq> [] \<and> list_all is_digit ds \<and> (r = [] \<or> \<not> is_digit (hd r))
            \<and> \<not> (\<exists>a' d r'. length a' < length a \<and> url = a' @ detail_prefix @ d # r'
                    \<and> is_digit d)"
    by (rule extract_project_id_Some_decomp)
qed

theorem extract_project_id_leftmost_witness:
  "extract_project_id
     ''https://projects.worldbank.org/en/projects-operations/project-detail/P168606'' = Some ''P168606''
   \<and> (\<exists>a ds r. ''https://projects.worldbank.org/en/projects-operations/project-detail/P168606''
           = a @ detail_prefix @ ds @ r \<and> ''P168606'' = CHR ''P'' # ds \<and> list_all is_digit ds)"
proof -
  define U where "U = ''https://projects.worldbank.org/en/projects-operations/project-detail/P168606''"
  define K where "K = ''P168606''"
  have v: "extract_project_id U = Some K"
    unfolding U_def K_def by code_simp
  have "extract_project_id U = Some K \<longrightarrow>
        (\<exists>a ds r. U = a @ detail_prefix @ ds @ r \<and> K = CHR ''P'' # ds
            \<and> ds \<noteq> [] \<and> list_all is_digit ds \<and> (r = [] \<or> \<not> is_digit (hd r))
            \<and> \<not> (\<exists>a' d r'. length a' < length a \<and> U = a' @ detail_prefix @ d # r'
                    \<and> is_digit d))"
    using extract_project_id_leftmost [of U K] by (rule conjunct2)
  then have "\<exists>a ds r. U = a @ detail_prefix @ ds @ r \<and> K = CHR ''P'' # ds \<and> list_all is_digit ds"
    using v by blast
  then show ?thesis
    using v unfolding U_def K_def by (rule conjI [rotated])
qed

section \<open>Properties of the API extractor\<close>

lemma strip_Nil [simp]: "strip [] = []"
  by (simp add: strip_def)

lemma scan_fields_first:
  assumes "\<forall>g\<in>set pre. \<not> qualifies pd g"
    and "map_of pd f = Some (JStr v)" and "50 < length (strip v)"
  shows "scan_fields pd (pre @ f # post) acc = strip v"
  using assms(1)
proof (induction pre arbitrary: acc)
  case Nil
  have "v \<noteq> []" using assms(3) by auto
  then show ?case using assms(2,3) by simp
next
  case (Cons g pre)
  have nq: "\<not> qualifies pd g" and rest: "\<forall>g\<in>set pre. \<not> qualifies pd g"
    using Cons.prems by simp_all
  have ih: "\<And>acc. scan_fields pd (pre @ f # post) acc = strip v"
    using Cons.IH rest by blast
  show ?case
  proof (cases "map_of pd g")
    case None
    then show ?thesis using ih by simp
  next
    case (Some j)
    show ?thesis
    proof (cases j)
      case JNull
      then show ?thesis using Some ih by simp
    next
      case (JStr w)
      then have "\<not> 50 < length (strip w)"
        using nq Some unfolding qualifies_def by simp
      then show ?thesis using Some JStr ih by simp
    qed
  qed
qed

text \<open>
  Claim C5 (field-name priority).  The first field of the list that qualifies decides the
  result: the loop stops there with the trimmed text of that field, and
  \<open>extract_abstract\<close> returns its normal form, whatever the fields listed later hold.  For
  the primary field \<open>project_abstract\<close> the list \<open>pre\<close> of earlier fields is empty.
\<close>

theorem extract_abstract_field_priority:
  assumes "extract_project_id url = Some pid"
    and "get_project_data api pid = Some pd"
    and "abstract_fields = pre @ f # post"
    and "\<forall>g\<in>set pre. \<not> qualifies pd g"
    and "map_of pd f = Some (JStr v)"
    and "50 < length (strip v)"
  shows "scan_fields pd abstract_fields [] = strip v
         \<and> extract_abstract api url = clean_text (strip v)"
proof -
  have s: "scan_fields pd abstract_fields [] = strip v"
    unfolding assms(3) using assms(4,5,6) by (rule scan_fields_first)
  have "pd \<noteq> []" using assms(5) by auto
  moreover have "strip v \<noteq> []" using assms(6) by auto
  ultimately have "extract_abstract api url = clean_text (strip v)"
    unfolding extract_abstract_def by (simp add: assms(1,2) s)
  then show ?thesis using s by simp
qed

theorem extract_abstract_field_priority_witness:
  "extract_project_id ''https://projects.worldbank.org/project-detail/P100001'' = Some ''P100001''
   \<and> map_of [(''description'', JStr (replicate 200 CHR ''d'')),
              (''project_abstract'', JStr (replicate 60 CHR ''a''))] ''project_abstract''
       = Some (JStr (replicate 60 CHR ''a''))
   \<and> 50 < length (strip (replicate 60 CHR ''a''))
   \<and> extract_abstract api_both ''https://projects.worldbank.org/project-detail/P100001''
       = replicate 60 CHR ''a''"
proof -
  define U where "U = ''https://projects.worldbank.org/project-detail/P100001''"
  define pd where "pd = [(''description'', JStr (replicate 200 CHR ''d'')),
                         (''project_abstract'', JStr (replicate 60 CHR ''a''))]"
  define v where "v = replicate 60 CHR ''a''"
  have 1: "extract_project_id U = Some ''P100001''"
    unfolding U_def by code_simp
  have 2: "get_project_data api_both ''P100001'' = Some pd"
    unfolding pd_def by code_simp
  have 3: "abstract_fields = [] @ ''project_abstract'' # [''abstract'', ''description'', ''summary'',
      ''project_description'', ''project_summary'']"
    by (simp add: abstract_fields_def)
  have 4: "\<forall>g\<in>set []. \<not> qualifies pd g"
    by simp
  have 5: "map_of pd ''project_abstract'' = Some (JStr v)"
    unfolding pd_def v_def by simp
  have 6: "50 < length (strip v)"
    unfolding v_def by code_simp
  have 7: "clean_text (strip v) = v"
    unfolding v_def by code_simp
  have "extract_abstract api_both U = clean_text (strip v)"
    using extract_abstract_field_priority [OF 1 2 3 4 5 6] by (rule conjunct2)
  then have "extract_abstract api_both U = v"
    by (simp only: 7)
  then show ?thesis
    using 1 5 6 unfolding U_def pd_def v_def by (intro conjI)
qed

text \<open>
  Claim C4 (no short abstract is returned).  The loop keeps the text of the last present
  field in \<open>abstract\<close> also when it is too short, and the test after the loop only asks
  whether \<open>abstract\<close> is non-empty: a document whose only field holds nine characters is
  answered with those nine characters.
\<close>

theorem extract_abstract_returns_short_text:
  "extract_abstract api_short ''https://projects.worldbank.org/project-detail/P100001'' = ''Too short''"
  by code_simp

section \<open>Properties of the batch orchestrator\<close>

lemma process_row_Inl:
  "process_row ex uc oc ob i r = Inl e \<longleftrightarrow> locator_value ob (r uc) = Number \<and> e = AttributeError"
  by (auto simp: process_row_def split: locator.splits sum.splits)

lemma process_row_other:
  "process_row ex uc oc ob i r = Inr r' \<Longrightarrow> c \<noteq> oc \<Longrightarrow> r' c = r c"
  by (auto simp: process_row_def split: locator.splits sum.splits if_splits)

lemma process_row_blank:
  assumes "process_row ex uc oc ob i (r(oc := Str [])) = Inr r'"
    and "uc = oc \<or> blank_locator (r uc)"
  shows "r' oc = Str []"
  using assms
  by (auto simp: process_row_def locator_value_def blank_locator_def
      split: locator.splits sum.splits if_splits cell.splits)

lemma process_row_fail:
  assumes "process_row ex uc oc ob i (r(oc := Str [])) = Inr r'"
    and "r uc = Str url"
    and "case ex i url of Inl e \<Rightarrow> True | Inr abstract \<Rightarrow> abstract = []"
  shows "r' oc = Str []"
  using assms
  by (auto simp: process_row_def locator_value_def
      split: locator.splits sum.splits if_splits cell.splits)

lemma process_row_cong:
  "(\<forall>u. ex' i u = ex i u) \<Longrightarrow> process_row ex' uc oc ob i r = process_row ex uc oc ob i r"
  by (simp add: process_row_def split: locator.splits)

lemma process_rows_Inr:
  "process_rows ex uc oc ob i rs = (calls, Inr out) \<Longrightarrow>
     length out = length rs
     \<and> (\<forall>k<length rs. process_row ex uc oc ob (i + k) (rs ! k) = Inr (out ! k))"
proof (induction rs arbitrary: i calls out)
  case Nil
  then show ?case by simp
next
  case (Cons r rs)
  obtain r' where r': "process_row ex uc oc ob i r = Inr r'"
    using Cons.prems by (cases "process_row ex uc oc ob i r") simp_all
  obtain calls' rest where rest: "process_rows ex uc oc ob (Suc i) rs = (calls', rest)"
    by (cases "process_rows ex uc oc ob (Suc i) rs") simp
  obtain out' where out': "rest = Inr out'" and out: "out = r' # out'"
    using Cons.prems r' rest by (cases rest) simp_all
  have ih: "length out' = length rs
     \<and> (\<forall>k<length rs. process_row ex uc oc ob (Suc i + k) (rs ! k) = Inr (out' ! k))"
    using rest out' by (intro Cons.IH) simp
  have "process_row ex uc oc ob (i + k) ((r # rs) ! k) = Inr (out ! k)"
    if "k < length (r # rs)" for k
  proof (cases k)
    case 0
    then show ?thesis using r' out by simp
  next
    case (Suc j)
    then have "j < length rs" using that by simp
    then have "process_row ex uc oc ob (Suc i + j) (rs ! j) = Inr (out' ! j)"
      using ih by blast
    then show ?thesis using Suc out by simp
  qed
  then show ?case using ih out by simp
qed

lemma process_rows_total:
  "\<forall>r\<in>set rs. locator_value ob (r uc) \<noteq> Number \<Longrightarrow>
     \<exists>calls out. process_rows ex uc oc ob i rs = (calls, Inr out)"
proof (induction rs arbitrary: i)
  case Nil
  show ?case by simp
next
  case (Cons r rs)
  have "locator_value ob (r uc) \<noteq> Number"
    using Cons.prems by simp
  then obtain r' where r': "process_row ex uc oc ob i r = Inr r'"
    using process_row_Inl [of ex uc oc ob i r] by (cases "process_row ex uc oc ob i r") auto
  obtain calls out where "process_rows ex uc oc ob (Suc i) rs = (calls, Inr out)"
    using Cons.IH [of "Suc i"] Cons.prems by auto
  then show ?case using r' by simp
qed

lemma process_rows_raises:
  "\<exists>r\<in>set rs. locator_value ob (r uc) = Number \<Longrightarrow>
     \<exists>calls. process_rows ex uc oc ob i rs = (calls, Inl AttributeError)"
proof (induction rs arbitrary: i)
  case Nil
  then show ?case by simp
next
  case (Cons r rs)
  show ?case
  proof (cases "process_row ex uc oc ob i r")
    case (Inl e)
    then have "e = AttributeError" by (simp add: process_row_Inl)
    then show ?thesis using Inl by simp
  next
    case (Inr r')
    then have "locator_value ob (r uc) \<noteq> Number"
      using process_row_Inl [of ex uc oc ob i r AttributeError] by auto
    then have "\<exists>r\<in>set rs. locator_value ob (r uc) = Number"
      using Cons.prems by auto
    then obtain calls where "process_rows ex uc oc ob (Suc i) rs = (calls, Inl AttributeError)"
      using Cons.IH [of "Suc i"] by auto
    then show ?thesis using Inr by simp
  qed
qed

lemma object_column_set_column:
  "uc \<noteq> oc \<Longrightarrow> object_column (rows (set_column df oc v)) uc = object_column (rows df) uc"
  by (simp add: object_column_def set_column_def list_ex_iff)

lemma locator_value_Number:
  "locator_value ob c = Number \<longleftrightarrow> \<not> ob \<and> (\<exists>s. c = Num s)"
  by (cases c) (simp_all add: locator_value_def)

lemma case_Num_iff: "(case c of Num s \<Rightarrow> True | _ \<Rightarrow> False) \<longleftrightarrow> (\<exists>s. c = Num s)"
  by (cases c) simp_all

lemma numeric_locator_iff:
  "numeric_locator df uc oc \<longleftrightarrow>
     (\<exists>r\<in>set (rows (set_column df oc (Str []))).
        locator_value (object_column (rows (set_column df oc (Str []))) uc) (r uc) = Number)"
proof (cases "uc = oc")
  case True
  then show ?thesis
    by (simp add: numeric_locator_def set_column_def locator_value_Number)
next
  case False
  have "(\<exists>r\<in>set (rows (set_column df oc (Str []))). \<exists>s. r uc = Num s)
        \<longleftrightarrow> (\<exists>r\<in>set (rows df). \<exists>s. r uc = Num s)"
    using False by (simp add: set_column_def)
  then show ?thesis
    using False
    by (simp add: numeric_locator_def object_column_set_column list_ex_iff
        locator_value_Number case_Num_iff)
qed

lemma process_csv_Inr:
  assumes "process_csv ex df uc oc = (calls, Inr (out, n, t))"
  shows "t = length (rows df)" and "length (rows out) = length (rows df)"
    and "n = length (filter (\<lambda>r. r oc \<noteq> Str []) (rows out))"
    and "\<And>i. i < length (rows df) \<Longrightarrow>
          process_row ex uc oc (object_column (rows (set_column df oc (Str []))) uc) i
            ((rows df ! i)(oc := Str [])) = Inr (rows out ! i)"
proof -
  define df1 where "df1 = set_column df oc (Str [])"
  define ob where "ob = object_column (rows df1) uc"
  have col: "uc \<in> set (columns df)"
    using assms by (auto simp: process_csv_def split: if_splits)
  obtain calls' res where pr: "process_rows ex uc oc ob 0 (rows df1) = (calls', res)"
    by (cases "process_rows ex uc oc ob 0 (rows df1)") simp
  have eq: "process_csv ex df uc oc =
      (case res of
         Inl e \<Rightarrow> (calls', Inl e)
       | Inr R \<Rightarrow> (calls', Inr (df1\<lparr>rows := R\<rparr>,
                      length (filter (\<lambda>r. r oc \<noteq> Str []) R), length (rows df1))))"
    using col pr unfolding process_csv_def df1_def ob_def
    by (simp add: Let_def split: sum.splits)
  obtain R where res: "res = Inr R"
    using assms eq by (cases res) simp_all
  have out: "out = df1\<lparr>rows := R\<rparr>" and n: "n = length (filter (\<lambda>r. r oc \<noteq> Str []) R)"
    and t: "t = length (rows df1)"
    using assms eq res by simp_all
  have len1: "length (rows df1) = length (rows df)"
    by (simp add: df1_def set_column_def)
  have R: "length R = length (rows df1)
     \<and> (\<forall>k<length (rows df1). process_row ex uc oc ob (0 + k) (rows df1 ! k) = Inr (R ! k))"
    using pr res by (intro process_rows_Inr) simp
  show "t = length (rows df)"
    using t len1 by simp
  show "length (rows out) = length (rows df)"
    using out R len1 by simp
  show "n = length (filter (\<lambda>r. r oc \<noteq> Str []) (rows out))"
    using n out by simp
  show "process_row ex uc oc (object_column (rows (set_column df oc (Str []))) uc) i
            ((rows df ! i)(oc := Str [])) = Inr (rows out ! i)"
    if "i < length (rows df)" for i
  proof -
    have "rows df1 ! i = (rows df ! i)(oc := Str [])"
      using that by (simp add: df1_def set_column_def)
    moreover have "process_row ex uc oc ob i (rows df1 ! i) = Inr (R ! i)"
      using R that len1 by simp
    ultimately show ?thesis
      using out by (simp add: ob_def df1_def)
  qed
qed

lemma process_csv_returns:
  assumes "uc \<in> set (columns df)" and "\<not> numeric_locator df uc oc"
  shows "\<exists>calls out n. process_csv ex df uc oc = (calls, Inr (out, n, length (rows df)))"
proof -
  define df1 where "df1 = set_column df oc (Str [])"
  define ob where "ob = object_column (rows df1) uc"
  have "\<forall>r\<in>set (rows df1). locator_value ob (r uc) \<noteq> Number"
    using assms(2) unfolding numeric_locator_iff df1_def ob_def by blast
  then obtain calls R where "process_rows ex uc oc ob 0 (rows df1) = (calls, Inr R)"
    using process_rows_total [of "rows df1" ob uc ex oc 0] by auto
  then have "process_csv ex df uc oc =
      (calls, Inr (df1\<lparr>rows := R\<rparr>, length (filter (\<lambda>r. r oc \<noteq> Str []) R), length (rows df1)))"
    using assms(1) unfolding process_csv_def df1_def ob_def by (simp add: Let_def)
  moreover have "length (rows df1) = length (rows df)"
    by (simp add: df1_def set_column_def)
  ultimately show ?thesis by auto
qed

lemma process_csv_column_error:
  "uc \<notin> set (columns df) \<Longrightarrow>
     process_csv ex df uc oc =
       ([], Inl (ValueError (''Column '' @ [CHR 0x27] @ uc @ [CHR 0x27]
                  @ '' not found in CSV. Available columns: '' @ join '', '' (columns df))))"
  by (simp add: process_csv_def column_error_def)

lemma process_csv_attribute_error:
  assumes "uc \<in> set (columns df)" and "numeric_locator df uc oc"
  shows "\<exists>calls. process_csv ex df uc oc = (calls, Inl AttributeError)"
proof -
  define df1 where "df1 = set_column df oc (Str [])"
  define ob where "ob = object_column (rows df1) uc"
  have "\<exists>r\<in>set (rows df1). locator_value ob (r uc) = Number"
    using assms(2) unfolding numeric_locator_iff df1_def ob_def by blast
  then obtain calls where "process_rows ex uc oc ob 0 (rows df1) = (calls, Inl AttributeError)"
    using process_rows_raises [of "rows df1" ob uc ex oc 0] by auto
  then have "process_csv ex df uc oc = (calls, Inl AttributeError)"
    using assms(1) unfolding process_csv_def df1_def ob_def by (simp add: Let_def)
  then show ?thesis by blast
qed

lemma fails_at_text_column:
  assumes "k < length (rows df)" and "fails_at ex df uc k"
  shows "\<not> numeric_locator df uc oc"
proof -
  obtain url where "(rows df ! k) uc = Str url"
    using assms(2) by (cases "(rows df ! k) uc") (simp_all add: fails_at_def)
  moreover have "rows df ! k \<in> set (rows df)"
    using assms(1) by simp
  ultimately have "object_column (rows df) uc"
    unfolding object_column_def list_ex_iff by force
  then show ?thesis
    by (simp add: numeric_locator_def)
qed

lemma set_column_cong:
  assumes "columns df1 = columns df2"
    and "list_all2 (\<lambda>r1 r2. \<forall>c. c \<noteq> oc \<longrightarrow> r1 c = r2 c) (rows df1) (rows df2)"
  shows "set_column df1 oc v = set_column df2 oc v"
proof -
  have "map (\<lambda>r. r(oc := v)) (rows df1) = map (\<lambda>r. r(oc := v)) (rows df2)"
    using assms(2)
  proof (induction rule: list_all2_induct)
    case Nil
    show ?case by simp
  next
    case (Cons r1 rs1 r2 rs2)
    have "r1(oc := v) = r2(oc := v)"
      using Cons.hyps(1) by (intro ext) simp
    then have "r1(oc := v) # map (\<lambda>r. r(oc := v)) rs1 = r2(oc := v) # map (\<lambda>r. r(oc := v)) rs2"
      using Cons.IH by (rule arg_cong2 [of _ _ _ _ Cons])
    then show ?case by (simp only: list.map)
  qed
  then show ?thesis
    using assms(1) by (simp add: set_column_def)
qed

lemma demo_columns: "''Project URL'' \<in> set (columns demo_table)"
  by (simp add: demo_table_def)

lemma demo_length: "1 < length (rows demo_table)"
  by (simp add: demo_table_def)

lemma demo_fails: "fails_at (api_extractor demo_apis) demo_table ''Project URL'' 1"
proof -
  have "extract_abstract (demo_apis 1) u = []" for u
    by (simp add: extract_abstract_def get_project_data_def demo_apis_def split: option.splits)
  then show ?thesis
    by (simp add: fails_at_def demo_table_def demo_row_def api_extractor_def)
qed

lemma demo_results:
  "map (\<lambda>r. r ''Abstract'')
       (result_rows (api_extractor demo_apis) demo_table ''Project URL'' ''Abstract'')
     = [Str (replicate 65 CHR ''x''), Str [], Str []]"
  by code_simp

text \<open>
  Claim C1 (batch containment).  When the locator column exists and record \<open>k\<close> fails,
  \<open>process_csv\<close> returns normally with as many rows as the input has, each row unchanged
  outside the result column and in its input position; the result of row \<open>k\<close> is the empty
  string; the summary counts the non-empty results among the other rows; and with any
  extractor that differs from this one only at record \<open>k\<close> the other rows come out the same.
  The locator of a failing record is a text, so its column is an \<open>object\<close> column and no
  row of it is read as a number.
\<close>

theorem process_csv_containment:
  assumes col: "uc \<in> set (columns df)" and k: "k < length (rows df)"
    and fail: "fails_at ex df uc k"
  shows "\<exists>calls out n. process_csv ex df uc oc = (calls, Inr (out, n, length (rows df)))
     \<and> length (rows out) = length (rows df)
     \<and> (\<forall>i<length (rows df). \<forall>c. c \<noteq> oc \<longrightarrow> (rows out ! i) c = (rows df ! i) c)
     \<and> (rows out ! k) oc = Str []
     \<and> n = card {i. i < length (rows df) \<and> i \<noteq> k \<and> (rows out ! i) oc \<noteq> Str []}
     \<and> (\<forall>ex'. (\<forall>i u. i \<noteq> k \<longrightarrow> ex' i u = ex i u) \<longrightarrow>
           (\<exists>calls' out' n'. process_csv ex' df uc oc = (calls', Inr (out', n', length (rows df)))
              \<and> (\<forall>i<length (rows df). i \<noteq> k \<longrightarrow> rows out' ! i = rows out ! i)))"
proof -
  define ob where "ob = object_column (rows (set_column df oc (Str []))) uc"
  have nn: "\<not> numeric_locator df uc oc"
    using k fail by (rule fails_at_text_column)
  obtain calls out n where 1: "process_csv ex df uc oc = (calls, Inr (out, n, length (rows df)))"
    using process_csv_returns [OF col nn] by blast
  note facts = process_csv_Inr [OF 1]
  have 2: "length (rows out) = length (rows df)"
    by (rule facts(2))
  have row: "process_row ex uc oc ob i ((rows df ! i)(oc := Str [])) = Inr (rows out ! i)"
    if "i < length (rows df)" for i
    unfolding ob_def using that by (rule facts(4))
  have 3: "\<forall>i<length (rows df). \<forall>c. c \<noteq> oc \<longrightarrow> (rows out ! i) c = (rows df ! i) c"
  proof (intro allI impI)
    fix i c assume i: "i < length (rows df)" and c: "c \<noteq> oc"
    have "(rows out ! i) c = ((rows df ! i)(oc := Str [])) c"
      using row [OF i] c by (rule process_row_other)
    then show "(rows out ! i) c = (rows df ! i) c"
      using c by simp
  qed
  obtain url where url: "(rows df ! k) uc = Str url"
    and bad: "case ex k url of Inl e \<Rightarrow> True | Inr abstract \<Rightarrow> abstract = []"
    using fail by (cases "(rows df ! k) uc") (simp_all add: fails_at_def)
  have 4: "(rows out ! k) oc = Str []"
    using row [OF k] url bad by (rule process_row_fail)
  have "n = card {i. i < length (rows out) \<and> (rows out ! i) oc \<noteq> Str []}"
    unfolding facts(3) by (rule length_filter_conv_card)
  also have "{i. i < length (rows out) \<and> (rows out ! i) oc \<noteq> Str []}
      = {i. i < length (rows df) \<and> i \<noteq> k \<and> (rows out ! i) oc \<noteq> Str []}"
    using 4 2 by auto
  finally have 5: "n = card {i. i < length (rows df) \<and> i \<noteq> k \<and> (rows out ! i) oc \<noteq> Str []}" .
  have 6: "\<forall>ex'. (\<forall>i u. i \<noteq> k \<longrightarrow> ex' i u = ex i u) \<longrightarrow>
           (\<exists>calls' out' n'. process_csv ex' df uc oc = (calls', Inr (out', n', length (rows df)))
              \<and> (\<forall>i<length (rows df). i \<noteq> k \<longrightarrow> rows out' ! i = rows out ! i))"
  proof (intro allI impI)
    fix ex' :: extractor
    assume agree: "\<forall>i u. i \<noteq> k \<longrightarrow> ex' i u = ex i u"
    obtain calls' out' n' where
      a: "process_csv ex' df uc oc = (calls', Inr (out', n', length (rows df)))"
      using process_csv_returns [OF col nn] by blast
    have b: "\<forall>i<length (rows df). i \<noteq> k \<longrightarrow> rows out' ! i = rows out ! i"
    proof (intro allI impI)
      fix i assume i: "i < length (rows df)" and ik: "i \<noteq> k"
      have "Inr (rows out' ! i) = process_row ex' uc oc ob i ((rows df ! i)(oc := Str []))"
        unfolding ob_def using process_csv_Inr(4) [OF a i] by simp
      also have "\<dots> = process_row ex uc oc ob i ((rows df ! i)(oc := Str []))"
        using agree ik by (intro process_row_cong) simp
      also have "\<dots> = Inr (rows out ! i)"
        by (rule row [OF i])
      finally show "rows out' ! i = rows out ! i"
        by simp
    qed
    show "\<exists>calls' out' n'. process_csv ex' df uc oc = (calls', Inr (out', n', length (rows df)))
              \<and> (\<forall>i<length (rows df). i \<noteq> k \<longrightarrow> rows out' ! i = rows out ! i)"
      by (intro exI conjI) (rule a, rule b)
  qed
  show ?thesis
    by (intro exI conjI) (rule 1, rule 2, rule 3, rule 4, rule 5, rule 6)
qed

theorem process_csv_containment_witness:
  "''Project URL'' \<in> set (columns demo_table) \<and> 1 < length (rows demo_table)
   \<and> fails_at (api_extractor demo_apis) demo_table ''Project URL'' 1
   \<and> map (\<lambda>r. r ''Abstract'')
         (result_rows (api_extractor demo_apis) demo_table ''Project URL'' ''Abstract'')
       = [Str (replicate 65 CHR ''x''), Str [], Str []]
   \<and> (\<exists>calls out n.
         process_csv (api_extractor demo_apis) demo_table ''Project URL'' ''Abstract''
           = (calls, Inr (out, n, length (rows demo_table)))
         \<and> length (rows out) = length (rows demo_table)
         \<and> (rows out ! 1) ''Abstract'' = Str []
         \<and> n = card {i. i < length (rows demo_table) \<and> i \<noteq> 1
                      \<and> (rows out ! i) ''Abstract'' \<noteq> Str []})"
proof -
  from process_csv_containment [OF demo_columns demo_length demo_fails, of "''Abstract''"]
  obtain calls out n where
    "process_csv (api_extractor demo_apis) demo_table ''Project URL'' ''Abstract''
           = (calls, Inr (out, n, length (rows demo_table)))"
    "length (rows out) = length (rows demo_table)"
    "(rows out ! 1) ''Abstract'' = Str []"
    "n = card {i. i < length (rows demo_table) \<and> i \<noteq> 1 \<and> (rows out ! i) ''Abstract'' \<noteq> Str []}"
    by (elim exE conjE) (rule that, assumption+)
  then have "\<exists>calls out n.
         process_csv (api_extractor demo_apis) demo_table ''Project URL'' ''Abstract''
           = (calls, Inr (out, n, length (rows demo_table)))
         \<and> length (rows out) = length (rows demo_table)
         \<and> (rows out ! 1) ''Abstract'' = Str []
         \<and> n = card {i. i < length (rows demo_table) \<and> i \<noteq> 1
                      \<and> (rows out ! i) ''Abstract'' \<noteq> Str []}"
    by (intro exI conjI)
  then show ?thesis
    using demo_columns demo_length demo_fails demo_results by (intro conjI)
qed

text \<open>
  Claim C7 (configuration error is the only failure that leaves \<open>process_csv\<close>).  The code
  departs from the claim.  The locator column of this table is present and holds numbers;
  the blank test \<open>url.strip()\<close> of the first row raises \<open>AttributeError\<close> before the
  per-record \<open>try\<close> is entered, and the exception leaves \<open>process_csv\<close>: no extractor call
  is made and no table is produced.
\<close>

theorem process_csv_numeric_locator_raises:
  "''Project URL'' \<in> set (columns demo_table_numeric)
   \<and> process_csv (api_extractor demo_apis) demo_table_numeric ''Project URL'' ''Abstract''
       = ([], Inl AttributeError)"
  by (simp add: process_csv_def set_column_def demo_table_numeric_def demo_row_def
      object_column_def process_row_def locator_value_def Let_def)

text \<open>
  Claim C9 (the result column is overwritten).  Two tables that differ only in what the
  result column held give the same outcome, and a row whose locator is missing or blank
  has the empty string in the result column of every table that \<open>process_csv\<close> returns;
  \<open>process_csv\<close> does return one unless the locator column is read as numbers.
\<close>

theorem process_csv_overwrites_output_column:
  "(columns df1 = columns df2
      \<and> list_all2 (\<lambda>r1 r2. \<forall>c. c \<noteq> oc \<longrightarrow> r1 c = r2 c) (rows df1) (rows df2)
      \<longrightarrow> process_csv ex df1 uc oc = process_csv ex df2 uc oc)
   \<and> (uc \<in> set (columns df1) \<and> i < length (rows df1) \<and> blank_locator ((rows df1 ! i) uc)
      \<longrightarrow> (\<forall>calls out n t. process_csv ex df1 uc oc = (calls, Inr (out, n, t))
                \<longrightarrow> (rows out ! i) oc = Str [])
          \<and> (\<not> numeric_locator df1 uc oc
                \<longrightarrow> (\<exists>calls out n.
                       process_csv ex df1 uc oc = (calls, Inr (out, n, length (rows df1)))
                       \<and> (rows out ! i) oc = Str [])))"
proof (intro conjI impI allI)
  assume h: "columns df1 = columns df2
      \<and> list_all2 (\<lambda>r1 r2. \<forall>c. c \<noteq> oc \<longrightarrow> r1 c = r2 c) (rows df1) (rows df2)"
  then have "set_column df1 oc (Str []) = set_column df2 oc (Str [])"
    by (intro set_column_cong) simp_all
  then show "process_csv ex df1 uc oc = process_csv ex df2 uc oc"
    using h by (simp add: process_csv_def)
next
  fix calls out n t
  assume h: "uc \<in> set (columns df1) \<and> i < length (rows df1) \<and> blank_locator ((rows df1 ! i) uc)"
    and r: "process_csv ex df1 uc oc = (calls, Inr (out, n, t))"
  have i: "i < length (rows df1)" and b: "uc = oc \<or> blank_locator ((rows df1 ! i) uc)"
    using h by simp_all
  show "(rows out ! i) oc = Str []"
    using process_csv_Inr(4) [OF r i] b by (rule process_row_blank)
next
  assume h: "uc \<in> set (columns df1) \<and> i < length (rows df1) \<and> blank_locator ((rows df1 ! i) uc)"
    and nn: "\<not> numeric_locator df1 uc oc"
  have col: "uc \<in> set (columns df1)" and i: "i < length (rows df1)"
    and b: "uc = oc \<or> blank_locator ((rows df1 ! i) uc)"
    using h by simp_all
  obtain calls out n where
    r: "process_csv ex df1 uc oc = (calls, Inr (out, n, length (rows df1)))"
    using process_csv_returns [OF col nn] by blast
  have e: "(rows out ! i) oc = Str []"
    using process_csv_Inr(4) [OF r i] b by (rule process_row_blank)
  show "\<exists>calls out n. process_csv ex df1 uc oc = (calls, Inr (out, n, length (rows df1)))
             \<and> (rows out ! i) oc = Str []"
    by (intro exI conjI) (rule r, rule e)
qed

theorem process_csv_overwrites_output_column_witness:
  "columns demo_table = columns demo_table_blank
   \<and> list_all2 (\<lambda>r1 r2. \<forall>c. c \<noteq> ''Abstract'' \<longrightarrow> r1 c = r2 c)
        (rows demo_table) (rows demo_table_blank)
   \<and> process_csv (api_extractor demo_apis) demo_table ''Project URL'' ''Abstract''
       = process_csv (api_extractor demo_apis) demo_table_blank ''Project URL'' ''Abstract''
   \<and> 2 < length (rows demo_table)
   \<and> blank_locator ((rows demo_table ! 2) ''Project URL'')
   \<and> (rows demo_table ! 2) ''Abstract'' = Str ''old 3''
   \<and> \<not> numeric_locator demo_table ''Project URL'' ''Abstract''
   \<and> (\<exists>calls out n.
         process_csv (api_extractor demo_apis) demo_table ''Project URL'' ''Abstract''
           = (calls, Inr (out, n, length (rows demo_table)))
         \<and> (rows out ! 2) ''Abstract'' = Str [])"
proof -
  have 1: "columns demo_table = columns demo_table_blank"
    by (simp add: demo_table_def demo_table_blank_def)
  have 2: "list_all2 (\<lambda>r1 r2. \<forall>c. c \<noteq> ''Abstract'' \<longrightarrow> r1 c = r2 c)
        (rows demo_table) (rows demo_table_blank)"
    by (simp add: demo_table_def demo_table_blank_def demo_row_def)
  have 4: "2 < length (rows demo_table)"
    by (simp add: demo_table_def)
  have 5: "blank_locator ((rows demo_table ! 2) ''Project URL'')"
    by (simp add: demo_table_def demo_row_def blank_locator_def)
  have 6: "(rows demo_table ! 2) ''Abstract'' = Str ''old 3''"
    by (simp add: demo_table_def demo_row_def)
  have 8: "\<not> numeric_locator demo_table ''Project URL'' ''Abstract''"
    by (simp add: numeric_locator_def object_column_def demo_table_def demo_row_def)
  note t = process_csv_overwrites_output_column
      [of demo_table demo_table_blank "''Abstract''" "api_extractor demo_apis"
          "''Project URL''" 2]
  have 3: "process_csv (api_extractor demo_apis) demo_table ''Project URL'' ''Abstract''
       = process_csv (api_extractor demo_apis) demo_table_blank ''Project URL'' ''Abstract''"
    by (rule t [THEN conjunct1, THEN mp, OF conjI [OF 1 2]])
  have 7: "\<exists>calls out n.
         process_csv (api_extractor demo_apis) demo_table ''Project URL'' ''Abstract''
           = (calls, Inr (out, n, length (rows demo_table)))
         \<and> (rows out ! 2) ''Abstract'' = Str []"
    by (rule t [THEN conjunct2, THEN mp, OF conjI [OF demo_columns conjI [OF 4 5]],
                THEN conjunct2, THEN mp, OF 8])
  show ?thesis
    using 1 2 3 4 5 6 8 7 by (intro conjI)
qed

section \<open>Properties of the document extractors\<close>

lemma first_substantial_first:
  assumes "list_all fruitless pre" and "substantial t"
  shows "first_substantial (pre @ Inr t # post) = t"
  using assms(1)
proof (induction pre)
  case Nil
  show ?case using assms(2) by simp
next
  case (Cons s pre)
  then have ih: "first_substantial (pre @ Inr t # post) = t" and f: "fruitless s"
    by simp_all
  show ?case
  proof (cases s)
    case (Inl e)
    then show ?thesis using ih by simp
  next
    case (Inr r)
    then have "\<not> substantial r" using f by (simp add: fruitless_def)
    then show ?thesis using Inr ih by simp
  qed
qed

lemma accumulate_all:
  "accumulate (map Inr contents) acc = (acc @ joined_texts contents, False)"
proof (induction contents arbitrary: acc)
  case Nil
  show ?case by (simp add: joined_texts_def)
next
  case (Cons c contents)
  show ?case
  proof (cases "50 < length (strip c)")
    case True
    then have "strip c \<noteq> []" by auto
    then show ?thesis
      using True Cons.IH [of "acc @ strip c @ '' ''"] by (simp add: joined_texts_def)
  next
    case False
    then show ?thesis
      using Cons.IH [of acc] by (simp add: joined_texts_def)
  qed
qed

lemma accumulate_nothing:
  assumes "list_all (\<lambda>el. case el of Inl e \<Rightarrow> True | Inr content \<Rightarrow> \<not> 50 < length (strip content)) els"
  shows "fst (accumulate els acc) = acc"
  using assms
proof (induction els)
  case Nil
  show ?case by simp
next
  case (Cons el els)
  show ?case
  proof (cases el)
    case (Inl e)
    then show ?thesis by simp
  next
    case (Inr c)
    then show ?thesis using Cons by simp
  qed
qed

lemma scan_selectors_skip:
  assumes "yields_nothing (query s)"
  shows "scan_selectors query (s # sels) [] = scan_selectors query sels []"
proof (cases "query s")
  case (Inl e)
  then show ?thesis by simp
next
  case (Inr els)
  then have "fst (accumulate els []) = []"
    using assms by (simp add: yields_nothing_def accumulate_nothing)
  then obtain b where "accumulate els [] = ([], b)"
    by (cases "accumulate els []") simp
  then show ?thesis
    using Inr by (cases b) simp_all
qed

lemma scan_selectors_skip_all:
  "list_all (\<lambda>s. yields_nothing (query s)) pre \<Longrightarrow>
     scan_selectors query (pre @ sels) [] = scan_selectors query sels []"
proof (induction pre)
  case Nil
  show ?case by simp
next
  case (Cons s pre)
  then have "yields_nothing (query s)" and "scan_selectors query (pre @ sels) [] = scan_selectors query sels []"
    by simp_all
  then show ?case
    using scan_selectors_skip [of query s "pre @ sels"] by simp
qed

lemma strip_empty_all_space: "strip t = [] \<Longrightarrow> \<forall>x\<in>set t. is_space x"
proof -
  assume "strip t = []"
  then have a: "dropWhile is_space (rev (dropWhile is_space t)) = []"
    by (simp only: strip_def rev_is_Nil_conv)
  have "dropWhile is_space t = []"
  proof (cases "dropWhile is_space t")
    case Nil
    then show ?thesis .
  next
    case (Cons c cs)
    then have nc: "\<not> is_space c" by (rule dropWhile_Cons_not)
    have "\<forall>x\<in>set (rev (c # cs)). is_space x"
      using a unfolding Cons by (simp only: dropWhile_eq_Nil_conv)
    then have "is_space c" by simp
    then show ?thesis using nc by simp
  qed
  then show ?thesis by (simp only: dropWhile_eq_Nil_conv)
qed

lemma joined_texts_strip:
  assumes "c \<in> set contents" and "50 < length (strip c)"
  shows "strip (joined_texts contents) \<noteq> []"
proof
  assume "strip (joined_texts contents) = []"
  then have all: "\<forall>x\<in>set (joined_texts contents). is_space x"
    by (rule strip_empty_all_space)
  have ne: "strip c \<noteq> []" using assms(2) by auto
  then have "\<not> is_space (hd (strip c))" by (rule strip_ends)
  moreover have "hd (strip c) \<in> set (joined_texts contents)"
    using assms ne by (auto simp: joined_texts_def)
  ultimately show False using all by blast
qed

lemma scan_selectors_first:
  assumes "list_all (\<lambda>s. yields_nothing (query s)) pre"
    and "query sel = Inr (map Inr contents)"
    and "c \<in> set contents" and "50 < length (strip c)"
  shows "scan_selectors query (pre @ sel # post) [] = joined_texts contents"
proof -
  have "contents \<noteq> []" using assms(3) by auto
  moreover have "strip (joined_texts contents) \<noteq> []"
    using assms(3,4) by (rule joined_texts_strip)
  ultimately have "scan_selectors query (sel # post) [] = joined_texts contents"
    using assms(2) by (simp add: accumulate_all)
  then show ?thesis
    using scan_selectors_skip_all [OF assms(1), of "sel # post"] by simp
qed

text \<open>
  Claim C8 (exactly one candidate).  As stated the claim fails in the browser extractor.
  When the winning selector matches two elements with substantial text, the result is the
  two texts joined by a blank.  And when the read of an element raises after a substantial
  text has been gathered, the loop goes on to the later selectors with that text kept: on
  the second page the result joins a text of the first selector and one of the third.
\<close>

theorem wb_extract_abstract_concatenates:
  "wb_extract_abstract demo_page = replicate 51 CHR ''a'' @ '' '' @ replicate 51 CHR ''b''
   \<and> wb_extract_abstract demo_page \<noteq> replicate 51 CHR ''a''
   \<and> wb_extract_abstract demo_page \<noteq> replicate 51 CHR ''b''
   \<and> wb_extract_abstract demo_page_raising
       = replicate 51 CHR ''a'' @ '' '' @ replicate 51 CHR ''b''"
  by code_simp

text \<open>
  Claim C8, amended.  Static extractor: the first strategy, in list order, whose result is
  substantial decides; the result is the normal form of that one strategy's text, whatever
  the later strategies would return.  Browser extractor: let \<open>sel\<close> be the first selector,
  in list order, that matches an element with more than 50 characters of trimmed text,
  every selector before it raising in its query or having no such element.  If every
  element that \<open>sel\<close> matches is read without an exception, the result is the normal form
  of the texts of all elements of \<open>sel\<close> with more than 50 characters, each trimmed and
  followed by a blank, in document order, whatever the later selectors match.  What the
  result is when the read of an element of \<open>sel\<close> raises is left open.
\<close>

theorem first_candidate_wins:
  "(list_all fruitless pre \<and> substantial t
      \<longrightarrow> simple_extract_abstract (Inr (pre @ Inr t # post)) = clean_text t)
   \<and> (loaded page \<and> abstract_selectors = pre' @ sel # post'
       \<and> list_all (\<lambda>s. yields_nothing (find_elements page s)) pre'
       \<and> find_elements page sel = Inr (map Inr contents)
       \<and> c \<in> set contents \<and> 50 < length (strip c)
      \<longrightarrow> wb_extract_abstract page = wb_clean (joined_texts contents))"
proof (intro conjI impI)
  assume h: "list_all fruitless pre \<and> substantial t"
  then have "first_substantial (pre @ Inr t # post) = t"
    by (intro first_substantial_first) simp_all
  moreover have "t \<noteq> []"
    using h by (simp add: substantial_def)
  ultimately show "simple_extract_abstract (Inr (pre @ Inr t # post)) = clean_text t"
    by (simp add: simple_extract_abstract_def)
next
  assume h: "loaded page \<and> abstract_selectors = pre' @ sel # post'
       \<and> list_all (\<lambda>s. yields_nothing (find_elements page s)) pre'
       \<and> find_elements page sel = Inr (map Inr contents)
       \<and> c \<in> set contents \<and> 50 < length (strip c)"
  then have l: "loaded page" and sels: "abstract_selectors = pre' @ sel # post'"
    and pre: "list_all (\<lambda>s. yields_nothing (find_elements page s)) pre'"
    and found: "find_elements page sel = Inr (map Inr contents)"
    and c: "c \<in> set contents" "50 < length (strip c)"
    by simp_all
  define A where "A = joined_texts contents"
  have scan: "scan_selectors (find_elements page) abstract_selectors [] = A"
    unfolding sels A_def using pre found c by (rule scan_selectors_first)
  have st: "strip A \<noteq> []"
    unfolding A_def using c by (rule joined_texts_strip)
  then have ne: "A \<noteq> []"
    by auto
  show "wb_extract_abstract page = wb_clean (joined_texts contents)"
    unfolding A_def [symmetric] using l st ne
    by (simp add: wb_extract_abstract_def scan)
qed

theorem first_candidate_wins_witness:
  "list_all fruitless [Inr ''Abstract'', Inl (OtherError ''strategy failed'')]
   \<and> substantial (replicate 60 CHR ''a'')
   \<and> simple_extract_abstract (Inr demo_strategies) = replicate 60 CHR ''a''
   \<and> loaded demo_page
   \<and> list_all (\<lambda>s. yields_nothing (find_elements demo_page s)) (take 2 abstract_selectors)
   \<and> find_elements demo_page (abstract_selectors ! 2)
       = Inr (map Inr [replicate 51 CHR ''a'', replicate 51 CHR ''b''])
   \<and> wb_extract_abstract demo_page
       = wb_clean (joined_texts [replicate 51 CHR ''a'', replicate 51 CHR ''b''])"
proof -
  define a51 where "a51 = replicate 51 CHR ''a''"
  define b51 where "b51 = replicate 51 CHR ''b''"
  define a60 where "a60 = replicate 60 CHR ''a''"
  note t = first_candidate_wins
    [of "[Inr ''Abstract'', Inl (OtherError ''strategy failed'')]" a60
        "[Inr (replicate 200 CHR ''b'')]" demo_page "take 2 abstract_selectors"
        "abstract_selectors ! 2" "drop (Suc 2) abstract_selectors" "[a51, b51]" a51]
  have 1: "list_all fruitless [Inr ''Abstract'', Inl (OtherError ''strategy failed'')]"
    by code_simp
  have 2: "substantial a60"
    unfolding a60_def by code_simp
  have c: "clean_text a60 = a60"
    unfolding a60_def by code_simp
  have d: "demo_strategies = [Inr ''Abstract'', Inl (OtherError ''strategy failed'')]
             @ Inr a60 # [Inr (replicate 200 CHR ''b'')]"
    unfolding a60_def by (simp add: demo_strategies_def)
  have "simple_extract_abstract (Inr ([Inr ''Abstract'', Inl (OtherError ''strategy failed'')]
             @ Inr a60 # [Inr (replicate 200 CHR ''b'')])) = clean_text a60"
    by (rule t [THEN conjunct1, THEN mp, OF conjI [OF 1 2]])
  then have 3: "simple_extract_abstract (Inr demo_strategies) = a60"
    by (simp only: d c)
  have 4: "loaded demo_page"
    by (simp add: demo_page_def)
  have "2 < length abstract_selectors"
    by (simp add: abstract_selectors_def)
  then have 5: "abstract_selectors
      = take 2 abstract_selectors @ abstract_selectors ! 2 # drop (Suc 2) abstract_selectors"
    by (rule id_take_nth_drop)
  have 6: "list_all (\<lambda>s. yields_nothing (find_elements demo_page s)) (take 2 abstract_selectors)"
    by code_simp
  have 7: "find_elements demo_page (abstract_selectors ! 2) = Inr (map Inr [a51, b51])"
    unfolding a51_def b51_def by code_simp
  have 8: "a51 \<in> set [a51, b51]"
    by simp
  have 9: "50 < length (strip a51)"
    unfolding a51_def by code_simp
  have 10: "wb_extract_abstract demo_page = wb_clean (joined_texts [a51, b51])"
    by (rule t [THEN conjunct2, THEN mp,
          OF conjI [OF 4 conjI [OF 5 conjI [OF 6 conjI [OF 7 conjI [OF 8 9]]]]]])
  show ?thesis
    using 1 2 3 4 6 7 10 unfolding a51_def b51_def a60_def by (intro conjI)
qed

end
